theory Spec2Isabelle
  imports Main
begin

section \<open>Data model of \<open>src/log.ts\<close>\<close>

text \<open>
  Strings are lists of 8-bit characters; a JavaScript code unit above 255 is outside the
  model. The type variable \<open>'v\<close> stands for the values of type \<open>any\<close> (the extra
  parameters of a log call, a thrown value).
\<close>

text \<open>
  \<open>type LogLevel = 'debug' | 'info' | 'warn' | 'error'\<close>. The level of a call is always
  one of the four literals; \<open>level_name\<close> is the string the literal denotes at run time.
\<close>

datatype LogLevel = Debug | Info | Warn | Error

fun level_name :: "LogLevel \<Rightarrow> string" where
  "level_name Debug = ''debug''"
| "level_name Info = ''info''"
| "level_name Warn = ''warn''"
| "level_name Error = ''error''"

text \<open>
  A transport is an object with a \<open>log\<close> method. \<open>ConsoleTransport\<close> is the class of the
  source; \<open>UserTransport k\<close> is the user-supplied object with identity \<open>k\<close>, whose
  behaviour is a parameter of the drain (see \<open>behaviour\<close> below).
\<close>

datatype Transport = ConsoleTransport | UserTransport nat

text \<open>
  \<open>interface LoggerConfig\<close>. The field \<open>logLevel\<close> is typed \<open>LogLevel\<close>, but \<open>getInstance\<close>
  stores the environment string under an unchecked cast (\<open>as LogLevel\<close>), so at run time
  the field holds an arbitrary string.
\<close>

record LoggerConfig =
  logLevel :: string
  enableTimestamps :: bool
  enableCallerInfo :: bool
  enableColors :: bool
  transports :: "Transport list"
  humanReadableTimestamp :: bool

text \<open>
  \<open>Partial<LoggerConfig>\<close>: every field may be omitted (\<open>None\<close>); a field that is present
  carries a value of its type.
\<close>

record PartialConfig =
  p_logLevel :: "string option"
  p_enableTimestamps :: "bool option"
  p_enableCallerInfo :: "bool option"
  p_enableColors :: "bool option"
  p_transports :: "Transport list option"
  p_humanReadableTimestamp :: "bool option"

record 'v LogMeta =
  timestamp :: string
  callerInfo :: string
  optionalParams :: "'v list"

text \<open>An element of \<open>logQueue\<close>: \<open>{ level, message, meta }\<close>.\<close>

record 'v QueueEntry =
  level :: LogLevel
  message :: string
  meta :: "'v LogMeta"

text \<open>One argument of a \<open>console.log\<close> or \<open>console.error\<close> call.\<close>

datatype 'v arg = Str string | Val 'v

text \<open>
  What \<open>new Error().stack\<close> gives inside the \<open>try\<close> block of \<open>getCallerInfo\<close>: a string,
  \<open>undefined\<close> (the property is not standard), or a failure of the capture itself, which
  is the only operation of the block that can raise (for instance a host hook that formats
  the stack and throws, or that yields a value without a \<open>split\<close> method).
\<close>

datatype 'v stack_capture = StackString string | StackUndefined | StackRaises 'v

text \<open>
  What one log call reads from the host: \<open>process.env.NODE_ENV\<close>, the two renderings of
  \<open>new Date()\<close> (\<open>toLocaleString()\<close> and \<open>toISOString()\<close>) and the captured stack.
\<close>

record 'v host =
  NODE_ENV :: "string option"
  localeString :: string
  isoString :: string
  stack :: "'v stack_capture"

text \<open>
  The single instance of \<open>class Log\<close> with its three fields (\<open>config\<close>, \<open>logQueue\<close>,
  \<open>isProcessing\<close>), together with the effects of the program on its host:
  \<open>timers\<close> counts the callbacks \<open>() => this.processQueue()\<close> scheduled with \<open>setTimeout\<close>
  and not yet run, \<open>invocations\<close> lists the calls \<open>transport.log(level, message, meta)\<close>
  in the order they were made, \<open>console_log\<close> and \<open>console_error\<close> list the argument
  lists written to the two console channels.
\<close>

record 'v Log =
  config :: LoggerConfig
  logQueue :: "'v QueueEntry list"
  isProcessing :: bool
  timers :: nat
  invocations :: "(Transport \<times> LogLevel \<times> string \<times> 'v LogMeta) list"
  console_log :: "'v arg list list"
  console_error :: "'v arg list list"

text \<open>
  What a user transport does to the logger inside its \<open>log\<close> method: a sequence of calls
  of the public methods, possibly ended by a \<open>throw\<close>. Its other effects are represented
  by the entry of \<open>invocations\<close>.
\<close>

datatype 'v action =
    Throw 'v
  | CallLog "'v host" LogLevel string "'v list"
  | CallConfigure PartialConfig
  | CallAddTransport Transport

text \<open>
  The behaviour of the user transports: for transport \<open>k\<close>, the state of the logger at the
  call and the three arguments, the actions its \<open>log\<close> method performs.
\<close>

type_synonym 'v behaviour =
  "nat \<Rightarrow> 'v Log \<Rightarrow> LogLevel \<Rightarrow> string \<Rightarrow> 'v LogMeta \<Rightarrow> 'v action list"

text \<open>A call either returns or raises; both leave a state behind.\<close>

datatype ('x, 's) outcome = Returned 's | Raised 'x 's

section \<open>String operations of the host used by the source\<close>

text \<open>
  The white space of \<open>\s\<close> and of \<open>trim()\<close> among the 8-bit characters: tab, line feed,
  vertical tab, form feed, carriage return, space, no-break space.
\<close>

definition is_space :: "char \<Rightarrow> bool" where
  "is_space c = (c \<in> set [CHR 0x09, CHR 0x0A, CHR 0x0B, CHR 0x0C, CHR 0x0D, CHR 0x20, CHR 0xA0])"

definition is_digit :: "char \<Rightarrow> bool" where
  "is_digit c = (c \<in> set ''0123456789'')"

text \<open>\<open>.\<close> matches every character but a line terminator.\<close>

definition is_dot :: "char \<Rightarrow> bool" where
  "is_dot c = (c \<noteq> CHR 0x0A \<and> c \<noteq> CHR 0x0D)"

definition trim :: "string \<Rightarrow> string" where
  "trim s = rev (dropWhile is_space (rev (dropWhile is_space s)))"

text \<open>\<open>s.split('\n')\<close>: never empty; the empty string gives one empty line.\<close>

fun split_lines :: "string \<Rightarrow> string list" where
  "split_lines [] = [[]]"
| "split_lines (c # cs) =
     (if c = CHR 0x0A then [] # split_lines cs
      else (case split_lines cs of l # ls \<Rightarrow> (c # l) # ls | [] \<Rightarrow> [[c]]))"

definition toUpperCase :: "string \<Rightarrow> string" where
  "toUpperCase s =
     map (\<lambda>c. let n = (of_char c :: nat) in if 97 \<le> n \<and> n \<le> 122 then char_of (n - 32) else c) s"

text \<open>
  The two regular expressions of \<open>getCallerInfo\<close> are sequences of these four kinds of
  atom: a literal character, \<open>\s+\<close>, \<open>\d+\<close> and \<open>.*\<close> (the last three greedy).
\<close>

datatype atom = Lit char | Spaces1 | Digits1 | AnyStar

fun klass :: "atom \<Rightarrow> char \<Rightarrow> bool" where
  "klass (Lit c) x = (x = c)"
| "klass Spaces1 x = is_space x"
| "klass Digits1 x = is_digit x"
| "klass AnyStar x = is_dot x"

fun least :: "atom \<Rightarrow> nat" where
  "least AnyStar = 0"
| "least _ = 1"

text \<open>\<open>descend f lo k\<close>: the first of \<open>f k, f (k - 1), \<dots>, f lo\<close> that succeeds.\<close>

fun descend :: "(nat \<Rightarrow> 'a option) \<Rightarrow> nat \<Rightarrow> nat \<Rightarrow> 'a option" where
  "descend f lo 0 = (if lo = 0 then f 0 else None)"
| "descend f lo (Suc k) =
     (if Suc k < lo then None
      else (case f (Suc k) of Some r \<Rightarrow> Some r | None \<Rightarrow> descend f lo k))"

text \<open>
  Backtracking match of the atoms at the start of \<open>s\<close>: a greedy atom takes the longest
  run first and gives characters back one at a time. The result lists what each atom
  consumed.
\<close>

fun match_here :: "atom list \<Rightarrow> string \<Rightarrow> string list option" where
  "match_here [] s = Some []"
| "match_here (Lit c # as) s =
     (case s of [] \<Rightarrow> None
      | x # xs \<Rightarrow> if x = c then map_option ((#) [x]) (match_here as xs) else None)"
| "match_here (a # as) s =
     descend (\<lambda>k. map_option ((#) (take k s)) (match_here as (drop k s)))
       (least a) (length (takeWhile (klass a) s))"

text \<open>The leftmost match, as \<open>String.prototype.match\<close> without the \<open>g\<close> flag finds it.\<close>

fun search :: "atom list \<Rightarrow> string \<Rightarrow> string list option" where
  "search as [] = match_here as []"
| "search as (x # xs) =
     (case match_here as (x # xs) of Some r \<Rightarrow> Some r | None \<Rightarrow> search as xs)"

text \<open>
  The match array: the whole match at index 0, then the capture groups; \<open>groups\<close> are the
  positions of the atoms in parentheses.
\<close>

definition str_match :: "atom list \<Rightarrow> nat list \<Rightarrow> string \<Rightarrow> string list option" where
  "str_match as groups s = map_option (\<lambda>r. concat r # map (\<lambda>i. r ! i) groups) (search as s)"

text \<open>\<open>/at\s+(.*)\s+\((.*):(\d+):(\d+)\)/\<close>\<close>

definition rx_paren :: "atom list" where
  "rx_paren = [Lit CHR ''a'', Lit CHR ''t'', Spaces1, AnyStar, Spaces1, Lit CHR ''('',
     AnyStar, Lit CHR '':'', Digits1, Lit CHR '':'', Digits1, Lit CHR '')'']"

text \<open>\<open>/at\s+(.*):(\d+):(\d+)/\<close>\<close>

definition rx_plain :: "atom list" where
  "rx_plain = [Lit CHR ''a'', Lit CHR ''t'', Spaces1, AnyStar, Lit CHR '':'', Digits1,
     Lit CHR '':'', Digits1]"

section \<open>The operations of \<open>class Log\<close>\<close>

text \<open>
  \<open>private static logLevels\<close>: the rank of a level name. A key that is not one of the
  four names yields no number (\<open>undefined\<close>, or an inherited member of the object, all of
  which compare as not-a-number).
\<close>

definition logLevels :: "string \<Rightarrow> nat option" where
  "logLevels k =
     (if k = ''debug'' then Some 0
      else if k = ''info'' then Some 1
      else if k = ''warn'' then Some 2
      else if k = ''error'' then Some 3
      else None)"

text \<open>\<open>a >= b\<close> on two such lookups: false as soon as one side is not a number.\<close>

fun js_ge :: "nat option \<Rightarrow> nat option \<Rightarrow> bool" where
  "js_ge (Some a) (Some b) = (b \<le> a)"
| "js_ge _ _ = False"

text \<open>\<open>(process.env.LOG_LEVEL as LogLevel) || 'debug'\<close>: absent or empty gives the default.\<close>

definition env_logLevel :: "string option \<Rightarrow> string" where
  "env_logLevel v = (case v of None \<Rightarrow> ''debug'' | Some s \<Rightarrow> if s = [] then ''debug'' else s)"

text \<open>The constructor, with the state of the host at program start.\<close>

definition new_Log :: "LoggerConfig \<Rightarrow> 'v Log" where
  "new_Log c = \<lparr>config = c, logQueue = [], isProcessing = False, timers = 0,
     invocations = [], console_log = [], console_error = []\<rparr>"

text \<open>
  \<open>getInstance\<close>: the first argument is \<open>process.env.LOG_LEVEL\<close>, the second the static
  field \<open>Log.instance\<close> (\<open>None\<close> before the first access). The result is the instance,
  which is also the value of the static field afterwards.
\<close>

definition getInstance :: "string option \<Rightarrow> 'v Log option \<Rightarrow> 'v Log" where
  "getInstance LOG_LEVEL inst =
     (case inst of
        None \<Rightarrow> new_Log \<lparr>logLevel = env_logLevel LOG_LEVEL, enableTimestamps = True,
                  enableCallerInfo = True, enableColors = True,
                  transports = [ConsoleTransport], humanReadableTimestamp = True\<rparr>
      | Some l \<Rightarrow> l)"

text \<open>\<open>{ ...this.config, ...options }\<close>\<close>

definition merge_config :: "LoggerConfig \<Rightarrow> PartialConfig \<Rightarrow> LoggerConfig" where
  "merge_config c p =
     \<lparr>logLevel = (case p_logLevel p of None \<Rightarrow> logLevel c | Some x \<Rightarrow> x),
      enableTimestamps = (case p_enableTimestamps p of None \<Rightarrow> enableTimestamps c | Some x \<Rightarrow> x),
      enableCallerInfo = (case p_enableCallerInfo p of None \<Rightarrow> enableCallerInfo c | Some x \<Rightarrow> x),
      enableColors = (case p_enableColors p of None \<Rightarrow> enableColors c | Some x \<Rightarrow> x),
      transports = (case p_transports p of None \<Rightarrow> transports c | Some x \<Rightarrow> x),
      humanReadableTimestamp =
        (case p_humanReadableTimestamp p of None \<Rightarrow> humanReadableTimestamp c | Some x \<Rightarrow> x)\<rparr>"

definition configure :: "PartialConfig \<Rightarrow> 'v Log \<Rightarrow> 'v Log" where
  "configure options this = this\<lparr>config := merge_config (config this) options\<rparr>"

definition addTransport :: "Transport \<Rightarrow> 'v Log \<Rightarrow> 'v Log" where
  "addTransport transport this =
     this\<lparr>config := (config this)\<lparr>transports := transports (config this) @ [transport]\<rparr>\<rparr>"

definition shouldLog :: "LoggerConfig \<Rightarrow> string option \<Rightarrow> LogLevel \<Rightarrow> bool" where
  "shouldLog c env lv =
     (if env = Some ''production'' then False
      else js_ge (logLevels (level_name lv)) (logLevels (logLevel c)))"

text \<open>
  The match of the stack line against the first expression or else the second, and the
  string built from \<open>match[1].trim()\<close>, \<open>match[2]\<close> and \<open>match[3]\<close>.
\<close>

definition line_match :: "string \<Rightarrow> string list option" where
  "line_match callerStackLine =
     (case str_match rx_paren [3, 6, 8, 10] callerStackLine of
        Some m \<Rightarrow> Some m
      | None \<Rightarrow> str_match rx_plain [3, 5, 7] callerStackLine)"

definition caller_of_line :: "string \<Rightarrow> string" where
  "caller_of_line callerStackLine =
     (case line_match callerStackLine of
        Some m \<Rightarrow> trim (m ! 1) @ '' ('' @ m ! 2 @ '':'' @ m ! 3 @ '')''
      | None \<Rightarrow> ''unknown'')"

text \<open>
  \<open>getCallerInfo\<close>: the string returned, and what the \<open>catch\<close> block writes with
  \<open>console.error\<close>. A failure of the capture is caught here; the function always returns.
\<close>

definition getCallerInfo :: "LoggerConfig \<Rightarrow> 'v stack_capture \<Rightarrow> string \<times> 'v arg list list" where
  "getCallerInfo c st =
     (if \<not> enableCallerInfo c then (''caller info disabled'', [])
      else (case st of
              StackRaises e \<Rightarrow> (''unknown'', [[Str ''Error getting caller info'', Val e]])
            | StackUndefined \<Rightarrow> (''unknown'', [])
            | StackString s \<Rightarrow>
                (let stack = split_lines s
                 in if length stack > 3 then (caller_of_line (stack ! 3), [])
                    else (''unknown'', []))))"

definition getTimestamp :: "LoggerConfig \<Rightarrow> 'v host \<Rightarrow> string" where
  "getTimestamp c h =
     (if \<not> enableTimestamps c then ''timestamp disabled''
      else if humanReadableTimestamp c then localeString h
      else isoString h)"

text \<open>The \<open>meta\<close> object built by \<open>enqueueLog\<close>, from the configuration of that moment.\<close>

definition build_meta :: "LoggerConfig \<Rightarrow> 'v host \<Rightarrow> 'v list \<Rightarrow> 'v LogMeta" where
  "build_meta c h params =
     \<lparr>timestamp = getTimestamp c h,
      callerInfo = fst (getCallerInfo c (stack h)),
      optionalParams = params\<rparr>"

definition enqueueLog :: "'v host \<Rightarrow> LogLevel \<Rightarrow> string \<Rightarrow> 'v list \<Rightarrow> 'v Log \<Rightarrow> 'v Log" where
  "enqueueLog h lv msg params this =
     this\<lparr>logQueue := logQueue this @
              [\<lparr>level = lv, message = msg, meta = build_meta (config this) h params\<rparr>],
          console_error := console_error this @ snd (getCallerInfo (config this) (stack h)),
          timers := Suc (timers this)\<rparr>"

text \<open>
  The four public methods. Each returns \<open>this\<close>: the result is the receiver, in its state
  after the call, so that \<open>Logger.info(a).error(b)\<close> is \<open>error h' b vs' (info h a vs this)\<close>.
\<close>

definition debug :: "'v host \<Rightarrow> string \<Rightarrow> 'v list \<Rightarrow> 'v Log \<Rightarrow> 'v Log" where
  "debug h msg params this =
     (if shouldLog (config this) (NODE_ENV h) Debug then enqueueLog h Debug msg params this
      else this)"

definition info :: "'v host \<Rightarrow> string \<Rightarrow> 'v list \<Rightarrow> 'v Log \<Rightarrow> 'v Log" where
  "info h msg params this =
     (if shouldLog (config this) (NODE_ENV h) Info then enqueueLog h Info msg params this
      else this)"

definition warn :: "'v host \<Rightarrow> string \<Rightarrow> 'v list \<Rightarrow> 'v Log \<Rightarrow> 'v Log" where
  "warn h msg params this =
     (if shouldLog (config this) (NODE_ENV h) Warn then enqueueLog h Warn msg params this
      else this)"

definition error :: "'v host \<Rightarrow> string \<Rightarrow> 'v list \<Rightarrow> 'v Log \<Rightarrow> 'v Log" where
  "error h msg params this =
     (if shouldLog (config this) (NODE_ENV h) Error then enqueueLog h Error msg params this
      else this)"

text \<open>The public method that belongs to a level.\<close>

fun log_method :: "LogLevel \<Rightarrow> 'v host \<Rightarrow> string \<Rightarrow> 'v list \<Rightarrow> 'v Log \<Rightarrow> 'v Log" where
  "log_method Debug = debug"
| "log_method Info = info"
| "log_method Warn = warn"
| "log_method Error = error"

text \<open>A sequence of log calls made one after the other, no timer running in between.\<close>

fun log_calls :: "('v host \<times> LogLevel \<times> string \<times> 'v list) list \<Rightarrow> 'v Log \<Rightarrow> 'v Log" where
  "log_calls [] this = this"
| "log_calls ((h, lv, msg, params) # cs) this = log_calls cs (log_method lv h msg params this)"

section \<open>Transports and the drain\<close>

definition colorStyles :: "LogLevel \<Rightarrow> string" where
  "colorStyles lv =
     (case lv of Debug \<Rightarrow> ''color: gray;'' | Info \<Rightarrow> ''color: blue;''
      | Warn \<Rightarrow> ''color: orange;'' | Error \<Rightarrow> ''color: red;'')"

text \<open>
  \<open>ConsoleTransport.log\<close>: the arguments of its one \<open>console.log\<close> call. The colour switch
  is read from the configuration of the instance at the time of the call
  (\<open>Log.getInstance().config\<close>; the constructor is private, so that instance is the one
  running the drain).
\<close>

definition console_args :: "LoggerConfig \<Rightarrow> LogLevel \<Rightarrow> string \<Rightarrow> 'v LogMeta \<Rightarrow> 'v arg list" where
  "console_args c lv msg m =
     (let levelStr = toUpperCase (level_name lv);
          colorStyle = (if enableColors c then colorStyles lv else [])
      in [Str (''%c'' @ levelStr @ ''%c ['' @ timestamp m @ ''] ['' @ callerInfo m @ '']:''
               @ [CHR 0x0A, CHR 0x0A] @ msg),
          Str colorStyle, Str ''color: default;''] @ map Val (optionalParams m))"

text \<open>The calls a user transport makes on the logger, in order, up to its \<open>throw\<close>.\<close>

fun perform :: "'v action list \<Rightarrow> 'v Log \<Rightarrow> ('v, 'v Log) outcome" where
  "perform [] this = Returned this"
| "perform (Throw x # as) this = Raised x this"
| "perform (CallLog h lv msg params # as) this = perform as (log_method lv h msg params this)"
| "perform (CallConfigure p # as) this = perform as (configure p this)"
| "perform (CallAddTransport t # as) this = perform as (addTransport t this)"

definition ConsoleTransport_log :: "LogLevel \<Rightarrow> string \<Rightarrow> 'v LogMeta \<Rightarrow> 'v Log \<Rightarrow> 'v Log" where
  "ConsoleTransport_log lv msg m this =
     this\<lparr>console_log := console_log this @ [console_args (config this) lv msg m]\<rparr>"

text \<open>
  \<open>transport.log(level, message, meta)\<close>: the call is recorded, then the method of the
  transport runs.
\<close>

definition transport_log ::
  "'v behaviour \<Rightarrow> Transport \<Rightarrow> LogLevel \<Rightarrow> string \<Rightarrow> 'v LogMeta \<Rightarrow> 'v Log \<Rightarrow> ('v, 'v Log) outcome" where
  "transport_log beh t lv msg m this =
     (let called = this\<lparr>invocations := invocations this @ [(t, lv, msg, m)]\<rparr>
      in case t of
           ConsoleTransport \<Rightarrow> Returned (ConsoleTransport_log lv msg m called)
         | UserTransport k \<Rightarrow> perform (beh k called lv msg m) called)"

text \<open>
  \<open>this.config.transports.forEach(...)\<close> over the elements the array has when the loop
  starts (elements pushed meanwhile are not visited, and a \<open>configure\<close> meanwhile leaves
  the array being traversed as it is). An exception ends the traversal.
\<close>

fun forEach ::
  "'v behaviour \<Rightarrow> Transport list \<Rightarrow> 'v QueueEntry \<Rightarrow> 'v Log \<Rightarrow> ('v, 'v Log) outcome" where
  "forEach beh [] e this = Returned this"
| "forEach beh (t # ts) e this =
     (case transport_log beh t (level e) (message e) (meta e) this of
        Raised x this' \<Rightarrow> Raised x this'
      | Returned this' \<Rightarrow> forEach beh ts e this')"

text \<open>
  The \<open>while\<close> loop of \<open>processQueue\<close>, with fuel: \<open>None\<close> when the fuel runs out before
  the loop ends.
\<close>

fun drain_loop :: "'v behaviour \<Rightarrow> nat \<Rightarrow> 'v Log \<Rightarrow> ('v, 'v Log) outcome option" where
  "drain_loop beh 0 this = None"
| "drain_loop beh (Suc n) this =
     (case logQueue this of
        [] \<Rightarrow> Some (Returned this)
      | logEntry # rest \<Rightarrow>
          (case forEach beh (transports (config this)) logEntry (this\<lparr>logQueue := rest\<rparr>) of
             Raised x this' \<Rightarrow> Some (Raised x this')
           | Returned this' \<Rightarrow> drain_loop beh n this'))"

definition processQueue :: "'v behaviour \<Rightarrow> nat \<Rightarrow> 'v Log \<Rightarrow> ('v, 'v Log) outcome option" where
  "processQueue beh fuel this =
     (if isProcessing this then Some (Returned this)
      else (case drain_loop beh fuel (this\<lparr>isProcessing := True\<rparr>) of
              None \<Rightarrow> None
            | Some (Raised x this') \<Rightarrow> Some (Raised x this')
            | Some (Returned this') \<Rightarrow> Some (Returned (this'\<lparr>isProcessing := False\<rparr>))))"

text \<open>
  The host runs the oldest scheduled callback; an exception that leaves the callback is
  reported by the host and goes no further, so only the state remains.
\<close>

definition fire :: "'v behaviour \<Rightarrow> nat \<Rightarrow> 'v Log \<Rightarrow> 'v Log option" where
  "fire beh fuel this =
     (if timers this = 0 then Some this
      else (case processQueue beh fuel (this\<lparr>timers := timers this - 1\<rparr>) of
              None \<Rightarrow> None
            | Some (Raised x this') \<Rightarrow> Some this'
            | Some (Returned this') \<Rightarrow> Some this'))"

section \<open>Notions used in the statements\<close>

text \<open>
  The rank of a level: its number in the table \<open>logLevels\<close>
  (lemma \<open>logLevels_level_name\<close> below).
\<close>

definition rank :: "LogLevel \<Rightarrow> nat" where
  "rank lv = (case lv of Debug \<Rightarrow> 0 | Info \<Rightarrow> 1 | Warn \<Rightarrow> 2 | Error \<Rightarrow> 3)"

text \<open>
  A transport whose \<open>log\<close> method neither raises nor calls the logger: the console
  transport, and a user transport that performs no action.
\<close>

definition sink :: "'v behaviour \<Rightarrow> Transport \<Rightarrow> bool" where
  "sink beh t =
     (case t of ConsoleTransport \<Rightarrow> True
      | UserTransport k \<Rightarrow> (\<forall>this lv msg m. beh k this lv msg m = []))"

text \<open>The invocations one queue entry causes on a list of transports, in list order.\<close>

definition dispatch ::
  "Transport list \<Rightarrow> 'v QueueEntry \<Rightarrow> (Transport \<times> LogLevel \<times> string \<times> 'v LogMeta) list" where
  "dispatch ts e = map (\<lambda>t. (t, level e, message e, meta e)) ts"

text \<open>What the console transports of a configuration write for one queue entry.\<close>

definition console_writes :: "LoggerConfig \<Rightarrow> 'v QueueEntry \<Rightarrow> 'v arg list list" where
  "console_writes c e =
     map (\<lambda>t. console_args c (level e) (message e) (meta e))
       (filter (\<lambda>t. t = ConsoleTransport) (transports c))"

text \<open>A log call is a host reading, a level, a message and the extra values.\<close>

definition permitted :: "LoggerConfig \<Rightarrow> 'v host \<times> LogLevel \<times> string \<times> 'v list \<Rightarrow> bool" where
  "permitted c call = (case call of (h, lv, msg, params) \<Rightarrow> shouldLog c (NODE_ENV h) lv)"

definition entry_of ::
  "LoggerConfig \<Rightarrow> 'v host \<times> LogLevel \<times> string \<times> 'v list \<Rightarrow> 'v QueueEntry" where
  "entry_of c call =
     (case call of (h, lv, msg, params) \<Rightarrow>
        \<lparr>level = lv, message = msg, meta = build_meta c h params\<rparr>)"

definition state_of :: "('x, 's) outcome \<Rightarrow> 's" where
  "state_of r = (case r of Returned s \<Rightarrow> s | Raised x s \<Rightarrow> s)"

text \<open>No transport's \<open>log\<close> method changes the queue, whatever the state it is called in.\<close>

definition never_enqueues :: "'v behaviour \<Rightarrow> bool" where
  "never_enqueues beh =
     (\<forall>t lv msg m this. logQueue (state_of (transport_log beh t lv msg m this)) = logQueue this)"

text \<open>
  The loop of \<open>processQueue\<close> stopped after \<open>k\<close> iterations (or at its end, when it ends
  before): the outcome so far. \<open>drain_loop\<close> with enough fuel ends with one of these
  outcomes (lemma \<open>drain_loop_is_drain_steps\<close>).
\<close>

fun drain_steps :: "'v behaviour \<Rightarrow> nat \<Rightarrow> 'v Log \<Rightarrow> ('v, 'v Log) outcome" where
  "drain_steps beh 0 this = Returned this"
| "drain_steps beh (Suc k) this =
     (case logQueue this of
        [] \<Rightarrow> Returned this
      | logEntry # rest \<Rightarrow>
          (case forEach beh (transports (config this)) logEntry (this\<lparr>logQueue := rest\<rparr>) of
             Raised x this' \<Rightarrow> Raised x this'
           | Returned this' \<Rightarrow> drain_steps beh k this'))"

text \<open>
  No transport enqueues during the drain that starts in \<open>this\<close>: \<open>enqueueLog\<close> schedules
  one timer with every entry it appends and nothing else in a drain touches the timers
  (lemma \<open>transport_log_effect\<close>), so this says that after no number of iterations a
  timer has been scheduled.
\<close>

definition no_enqueue_during_drain :: "'v behaviour \<Rightarrow> 'v Log \<Rightarrow> bool" where
  "no_enqueue_during_drain beh this =
     (\<forall>k. timers (state_of (drain_steps beh k this)) = timers this)"

section \<open>Sample inputs\<close>

text \<open>User transports that do nothing with the logger.\<close>

definition quiet :: "'v behaviour" where
  "quiet k this lv msg m = []"

definition plain_host :: "'v host" where
  "plain_host = \<lparr>NODE_ENV = None, localeString = ''11/2/2026, 9:00:00 AM'',
     isoString = ''2026-11-02T09:00:00.000Z'', stack = StackUndefined\<rparr>"

text \<open>The partial configuration \<open>{}\<close>.\<close>

definition omit_all :: "PartialConfig" where
  "omit_all = \<lparr>p_logLevel = None, p_enableTimestamps = None, p_enableCallerInfo = None,
     p_enableColors = None, p_transports = None, p_humanReadableTimestamp = None\<rparr>"

text \<open>The default logger after \<open>addTransport\<close> of user transport 0.\<close>

definition two_sinks :: "nat Log" where
  "two_sinks = addTransport (UserTransport 0) (getInstance None None)"

text \<open>The same after \<open>configure({ logLevel: 'warn' })\<close>.\<close>

definition warn_logger :: "nat Log" where
  "warn_logger = configure (omit_all\<lparr>p_logLevel := Some ''warn''\<rparr>) two_sinks"

text \<open>
  The frames on the stack when \<open>main\<close> calls \<open>Logger.info\<close> and \<open>getCallerInfo\<close> captures
  the stack, innermost first, each as the line V8 prints for it; \<open>v8_frames ! 0\<close> is
  the point of capture, \<open>v8_frames ! 3\<close> the frame three levels up.
\<close>

definition v8_frames :: "string list" where
  "v8_frames =
     [''    at Log.getCallerInfo (/app/src/log.ts:94:21)'',
      ''    at Log.enqueueLog (/app/src/log.ts:132:24)'',
      ''    at Log.info (/app/src/log.ts:167:12)'',
      ''    at main (/app/src/main.ts:5:10)'']"

text \<open>
  The value of \<open>new Error().stack\<close> on V8 with these frames: the header line \<open>Error\<close>,
  then one line per frame.
\<close>

definition v8_stack :: string where
  "v8_stack = ''Error'' @ concat (map (\<lambda>frame. CHR 0x0A # frame) v8_frames)"

definition v8_host :: "nat host" where
  "v8_host = plain_host\<lparr>stack := StackString v8_stack\<rparr>"

text \<open>A host on which the capture of the stack raises the value 5.\<close>

definition failing_capture :: "nat host" where
  "failing_capture = plain_host\<lparr>stack := StackRaises 5\<rparr>"

text \<open>Values for the extra parameters \<open>"a", 1, {x: 1}\<close>.\<close>

datatype jsval = JStr string | JNum int | JObj "(string \<times> jsval) list"

definition js_logger :: "jsval Log" where
  "js_logger = addTransport (UserTransport 0) (getInstance None None)"

text \<open>User transports that log an error to the logger each time they are invoked.\<close>

definition relogging :: "'v behaviour" where
  "relogging k this lv msg m = [CallLog plain_host Error ''again'' []]"

text \<open>User transports that throw the value 13 on the message \<open>boom\<close> and do nothing otherwise.\<close>

definition throws_on_boom :: "nat behaviour" where
  "throws_on_boom k this lv msg m = (if msg = ''boom'' then [Throw 13] else [])"

text \<open>The default logger after \<open>configure({ transports: [t0] })\<close>.\<close>

definition one_user :: "nat Log" where
  "one_user = configure (omit_all\<lparr>p_transports := Some [UserTransport 0]\<rparr>) (getInstance None None)"

text \<open>
  What is looked at in a state: the messages in the queue, the processing flag, the
  number of pending timers, the messages the transports were invoked with.
\<close>

definition observe :: "'v Log \<Rightarrow> string list \<times> bool \<times> nat \<times> string list" where
  "observe this =
     (map message (logQueue this), isProcessing this, timers this,
      map (\<lambda>(t, lv, msg, m). msg) (invocations this))"

text \<open>
  \<open>Logger.info('boom').info('next')\<close> on \<open>one_user\<close>, then the first timer runs
  (the transport throws on \<open>boom\<close>), then the second timer, then \<open>Logger.info('later')\<close>
  and its timer.
\<close>

definition after_failure :: "nat Log option" where
  "after_failure =
     fire throws_on_boom 9 (info plain_host ''next'' [] (info plain_host ''boom'' [] one_user))"

definition after_second_timer :: "nat Log option" where
  "after_second_timer = Option.bind after_failure (fire throws_on_boom 9)"

definition after_later_call :: "nat Log option" where
  "after_later_call =
     Option.bind after_second_timer
       (\<lambda>this. fire throws_on_boom 9 (info plain_host ''later'' [] this))"

text \<open>
  User transports that call \<open>Logger.debug('seen')\<close> on every invocation, a logger with
  threshold \<open>error\<close> and one such transport, and that logger after two \<open>error\<close> calls.
\<close>

definition logs_debug :: "'v behaviour" where
  "logs_debug k this lv msg m = [CallLog plain_host Debug ''seen'' []]"

definition error_logger :: "nat Log" where
  "error_logger =
     configure (omit_all\<lparr>p_logLevel := Some ''error'', p_transports := Some [UserTransport 0]\<rparr>)
       (getInstance None None)"

definition two_errors :: "nat Log" where
  "two_errors = error plain_host ''b'' [] (error plain_host ''a'' [] error_logger)"

text \<open>\<open>Logger.info('boom').info('next')\<close> on \<open>one_user\<close>, before any timer runs.\<close>

definition boom_then_next :: "nat Log" where
  "boom_then_next = info plain_host ''next'' [] (info plain_host ''boom'' [] one_user)"

section \<open>Lemmas on the operations\<close>

subsection \<open>The log methods\<close>

lemma logLevels_level_name: "logLevels (level_name lv) = Some (rank lv)"
  by (cases lv) (simp_all add: logLevels_def rank_def)

lemma log_method_unfold:
  "log_method lv h msg ps this =
     (if shouldLog (config this) (NODE_ENV h) lv then enqueueLog h lv msg ps this else this)"
  by (cases lv) (simp_all add: debug_def info_def warn_def error_def)

lemma log_method_frame:
  "config (log_method lv h msg ps this) = config this"
  "isProcessing (log_method lv h msg ps this) = isProcessing this"
  "invocations (log_method lv h msg ps this) = invocations this"
  "console_log (log_method lv h msg ps this) = console_log this"
  by (simp_all add: log_method_unfold enqueueLog_def)

lemma log_method_queue:
  "logQueue (log_method lv h msg ps this) =
     logQueue this @ map (entry_of (config this)) (filter (permitted (config this)) [(h, lv, msg, ps)])"
  by (simp add: log_method_unfold enqueueLog_def entry_of_def permitted_def)

lemma log_calls_frame:
  "config (log_calls cs this) = config this \<and>
   isProcessing (log_calls cs this) = isProcessing this \<and>
   invocations (log_calls cs this) = invocations this \<and>
   console_log (log_calls cs this) = console_log this"
  by (induction cs this rule: log_calls.induct) (simp_all add: log_method_frame)

lemma log_calls_queue:
  "logQueue (log_calls cs this) =
     logQueue this @ map (entry_of (config this)) (filter (permitted (config this)) cs)"
proof (induction cs this rule: log_calls.induct)
  case (1 this)
  show ?case by simp
next
  case (2 h lv msg params cs this)
  then show ?case by (simp add: log_method_queue log_method_frame)
qed

lemma merge_omit_all: "merge_config c omit_all = c"
  by (simp add: merge_config_def omit_all_def)

lemma configure_omit_all: "configure omit_all this = this"
  by (simp add: configure_def merge_omit_all)

lemma state_of_simps:
  "state_of (Returned s) = s" "state_of (Raised x s) = s"
  by (simp_all add: state_of_def)

subsection \<open>The drain when the registered transports are sinks\<close>

lemma transport_log_sink:
  "sink beh t \<Longrightarrow>
   transport_log beh t lv msg m this =
     Returned (this\<lparr>invocations := invocations this @ [(t, lv, msg, m)],
                    console_log := console_log this @
                      (if t = ConsoleTransport then [console_args (config this) lv msg m] else [])\<rparr>)"
  by (cases t) (simp_all add: transport_log_def ConsoleTransport_log_def sink_def Let_def)

lemma forEach_sinks:
  "\<forall>t\<in>set ts. sink beh t \<Longrightarrow>
   forEach beh ts e this =
     Returned (this\<lparr>invocations := invocations this @ dispatch ts e,
                    console_log := console_log this @
                      map (\<lambda>t. console_args (config this) (level e) (message e) (meta e))
                        (filter (\<lambda>t. t = ConsoleTransport) ts)\<rparr>)"
proof (induction ts arbitrary: this)
  case Nil
  then show ?case by (simp add: dispatch_def)
next
  case (Cons t ts)
  then show ?case by (simp add: transport_log_sink dispatch_def)
qed

lemma drain_loop_sinks:
  "\<forall>t\<in>set (transports (config this)). sink beh t \<Longrightarrow> length (logQueue this) < n \<Longrightarrow>
   drain_loop beh n this =
     Some (Returned (this\<lparr>logQueue := [],
        invocations := invocations this @ concat (map (dispatch (transports (config this))) (logQueue this)),
        console_log := console_log this @ concat (map (console_writes (config this)) (logQueue this))\<rparr>))"
proof (induction n arbitrary: this)
  case 0
  then show ?case by simp
next
  case (Suc n)
  show ?case
  proof (cases "logQueue this")
    case Nil
    then show ?thesis by simp
  next
    case (Cons e q)
    let ?mid = "this\<lparr>logQueue := q,
        invocations := invocations this @ dispatch (transports (config this)) e,
        console_log := console_log this @ console_writes (config this) e\<rparr>"
    have fe: "forEach beh (transports (config this)) e (this\<lparr>logQueue := q\<rparr>) = Returned ?mid"
      using Suc.prems(1) by (simp add: forEach_sinks console_writes_def)
    have "drain_loop beh n ?mid = Some (Returned (?mid\<lparr>logQueue := [],
        invocations := invocations ?mid @ concat (map (dispatch (transports (config ?mid))) (logQueue ?mid)),
        console_log := console_log ?mid @ concat (map (console_writes (config ?mid)) (logQueue ?mid))\<rparr>))"
      using Suc.prems Cons by (intro Suc.IH) simp_all
    then show ?thesis using Cons fe by simp
  qed
qed

lemma processQueue_sinks:
  assumes "\<not> isProcessing this" "\<forall>t\<in>set (transports (config this)). sink beh t"
    "length (logQueue this) < n"
  shows "processQueue beh n this =
     Some (Returned (this\<lparr>logQueue := [],
        invocations := invocations this @ concat (map (dispatch (transports (config this))) (logQueue this)),
        console_log := console_log this @ concat (map (console_writes (config this)) (logQueue this))\<rparr>))"
  using assms by (simp add: processQueue_def drain_loop_sinks)

lemma drain_after_permitted_call:
  assumes idle: "\<not> isProcessing this"
    and ok: "shouldLog (config this) (NODE_ENV h) lv"
    and sinks: "\<forall>t\<in>set (transports (merge_config (config this) p)). sink beh t"
    and fuel: "Suc (length (logQueue this)) < fuel"
  shows "\<exists>this'. processQueue beh fuel (configure p (log_method lv h msg ps this)) = Some (Returned this')
           \<and> invocations this' = invocations this @
                concat (map (dispatch (transports (merge_config (config this) p))) (logQueue this)) @
                map (\<lambda>t. (t, lv, msg, build_meta (config this) h ps))
                  (transports (merge_config (config this) p))"
proof -
  let ?s = "configure p (log_method lv h msg ps this)"
  have q: "logQueue ?s = logQueue this @ [\<lparr>level = lv, message = msg, meta = build_meta (config this) h ps\<rparr>]"
    using ok by (simp add: configure_def log_method_unfold enqueueLog_def)
  have fr: "config ?s = merge_config (config this) p" "isProcessing ?s = isProcessing this"
    "invocations ?s = invocations this"
    by (simp_all add: configure_def log_method_frame)
  have "processQueue beh fuel ?s =
     Some (Returned (?s\<lparr>logQueue := [],
        invocations := invocations ?s @ concat (map (dispatch (transports (config ?s))) (logQueue ?s)),
        console_log := console_log ?s @ concat (map (console_writes (config ?s)) (logQueue ?s))\<rparr>))"
    using idle sinks fuel by (intro processQueue_sinks) (simp_all add: fr q)
  then show ?thesis by (simp add: fr q dispatch_def)
qed

lemma sinks_never_enqueue: "\<forall>t. sink beh t \<Longrightarrow> never_enqueues beh"
  by (simp add: never_enqueues_def transport_log_sink state_of_def)

subsection \<open>The order of service, whatever the transports do\<close>

text \<open>
  Every enqueue appends one entry at the back of the queue and schedules one timer, and
  nothing else that a transport can do touches the queue or the timers: the number of
  timers scheduled counts the entries enqueued.
\<close>

lemma log_method_effect:
  "\<exists>new. logQueue (log_method lv h msg ps this) = logQueue this @ new
         \<and> timers (log_method lv h msg ps this) = timers this + length new"
  by (simp add: log_method_unfold enqueueLog_def)

lemma perform_effect:
  "\<exists>new. logQueue (state_of (perform as this)) = logQueue this @ new
         \<and> timers (state_of (perform as this)) = timers this + length new
         \<and> invocations (state_of (perform as this)) = invocations this"
proof (induction as arbitrary: this)
  case Nil
  show ?case by (simp add: state_of_simps)
next
  case (Cons a as)
  show ?case
  proof (cases a)
    case (Throw x)
    then show ?thesis by (simp add: state_of_simps)
  next
    case (CallLog h lv msg ps)
    let ?s = "log_method lv h msg ps this"
    obtain n1 where n1: "logQueue ?s = logQueue this @ n1" "timers ?s = timers this + length n1"
      using log_method_effect by blast
    from Cons.IH [of ?s] obtain n2 where
      "logQueue (state_of (perform as ?s)) = logQueue ?s @ n2"
      "timers (state_of (perform as ?s)) = timers ?s + length n2"
      "invocations (state_of (perform as ?s)) = invocations ?s"
      by blast
    with n1 CallLog have "logQueue (state_of (perform (a # as) this)) = logQueue this @ (n1 @ n2)
         \<and> timers (state_of (perform (a # as) this)) = timers this + length (n1 @ n2)
         \<and> invocations (state_of (perform (a # as) this)) = invocations this"
      by (simp add: log_method_frame)
    then show ?thesis by blast
  next
    case (CallConfigure p)
    with Cons.IH [of "configure p this"] show ?thesis by (simp add: configure_def)
  next
    case (CallAddTransport t)
    with Cons.IH [of "addTransport t this"] show ?thesis by (simp add: addTransport_def)
  qed
qed

lemma transport_log_effect:
  "\<exists>new. logQueue (state_of (transport_log beh t lv msg m this)) = logQueue this @ new
         \<and> timers (state_of (transport_log beh t lv msg m this)) = timers this + length new
         \<and> invocations (state_of (transport_log beh t lv msg m this)) =
             invocations this @ [(t, lv, msg, m)]"
proof (cases t)
  case ConsoleTransport
  then show ?thesis
    by (simp add: transport_log_def ConsoleTransport_log_def Let_def state_of_simps)
next
  case (UserTransport k)
  let ?called = "this\<lparr>invocations := invocations this @ [(t, lv, msg, m)]\<rparr>"
  from perform_effect [of "beh k ?called lv msg m" ?called] UserTransport show ?thesis
    by (simp add: transport_log_def Let_def)
qed

text \<open>
  One traversal of the transports for an entry: the transports reached are an initial
  part of the list, all of it when none raises and up to the one that raises otherwise.
\<close>

lemma forEach_effect:
  "\<exists>new reached rest. ts = reached @ rest
     \<and> logQueue (state_of (forEach beh ts e this)) = logQueue this @ new
     \<and> timers (state_of (forEach beh ts e this)) = timers this + length new
     \<and> invocations (state_of (forEach beh ts e this)) = invocations this @ dispatch reached e
     \<and> (case forEach beh ts e this of Returned s \<Rightarrow> rest = [] | Raised x s \<Rightarrow> reached \<noteq> [])"
proof (induction ts arbitrary: this)
  case Nil
  show ?case by (simp add: state_of_simps dispatch_def)
next
  case (Cons t ts)
  from transport_log_effect [of beh t "level e" "message e" "meta e" this] obtain n1 where
    q1: "logQueue (state_of (transport_log beh t (level e) (message e) (meta e) this)) = logQueue this @ n1"
    and t1: "timers (state_of (transport_log beh t (level e) (message e) (meta e) this)) =
             timers this + length n1"
    and i1: "invocations (state_of (transport_log beh t (level e) (message e) (meta e) this)) =
             invocations this @ [(t, level e, message e, meta e)]"
    by blast
  show ?case
  proof (cases "transport_log beh t (level e) (message e) (meta e) this")
    case (Raised x s)
    with q1 t1 i1 have "t # ts = [t] @ ts
     \<and> logQueue (state_of (forEach beh (t # ts) e this)) = logQueue this @ n1
     \<and> timers (state_of (forEach beh (t # ts) e this)) = timers this + length n1
     \<and> invocations (state_of (forEach beh (t # ts) e this)) = invocations this @ dispatch [t] e
     \<and> (case forEach beh (t # ts) e this of Returned s \<Rightarrow> ts = [] | Raised x s \<Rightarrow> [t] \<noteq> [])"
      by (simp add: state_of_simps dispatch_def)
    then show ?thesis by blast
  next
    case (Returned s)
    from Cons.IH [of s] obtain n2 d r where
      "ts = d @ r" "logQueue (state_of (forEach beh ts e s)) = logQueue s @ n2"
      "timers (state_of (forEach beh ts e s)) = timers s + length n2"
      "invocations (state_of (forEach beh ts e s)) = invocations s @ dispatch d e"
      "case forEach beh ts e s of Returned s' \<Rightarrow> r = [] | Raised x s' \<Rightarrow> d \<noteq> []"
      by blast
    with Returned q1 t1 i1 have "t # ts = (t # d) @ r
     \<and> logQueue (state_of (forEach beh (t # ts) e this)) = logQueue this @ (n1 @ n2)
     \<and> timers (state_of (forEach beh (t # ts) e this)) = timers this + length (n1 @ n2)
     \<and> invocations (state_of (forEach beh (t # ts) e this)) = invocations this @ dispatch (t # d) e
     \<and> (case forEach beh (t # ts) e this of Returned s \<Rightarrow> r = [] | Raised x s \<Rightarrow> t # d \<noteq> [])"
      by (simp add: state_of_simps dispatch_def split: outcome.splits)
    then show ?thesis by blast
  qed
qed

text \<open>
  One iteration of the loop serves the entry at the front: the entry goes to the
  registered transports in order, the rest of the queue stays in front in its order,
  what is enqueued meanwhile is behind it, and the loop goes on from that state, or ends
  with the exception of the transport that raised.
\<close>

lemma iteration_serves_the_front:
  assumes "logQueue this = e # q"
  shows "\<exists>new reached rest. transports (config this) = reached @ rest
     \<and> (let out = forEach beh (transports (config this)) e (this\<lparr>logQueue := q\<rparr>)
        in logQueue (state_of out) = q @ new
         \<and> timers (state_of out) = timers this + length new
         \<and> invocations (state_of out) = invocations this @ dispatch reached e
         \<and> (case out of
               Returned s \<Rightarrow> rest = [] \<and> (\<forall>n. drain_loop beh (Suc n) this = drain_loop beh n s)
             | Raised x s \<Rightarrow> reached \<noteq> [] \<and> (\<forall>n. drain_loop beh (Suc n) this = Some (Raised x s))))"
proof -
  let ?out = "forEach beh (transports (config this)) e (this\<lparr>logQueue := q\<rparr>)"
  from forEach_effect [of "transports (config this)" beh e "this\<lparr>logQueue := q\<rparr>"]
  obtain new reached rest where
    a: "transports (config this) = reached @ rest"
    and b: "logQueue (state_of ?out) = q @ new" "timers (state_of ?out) = timers this + length new"
      "invocations (state_of ?out) = invocations this @ dispatch reached e"
    and c: "case ?out of Returned s \<Rightarrow> rest = [] | Raised x s \<Rightarrow> reached \<noteq> []"
    by auto
  have "case ?out of
               Returned s \<Rightarrow> rest = [] \<and> (\<forall>n. drain_loop beh (Suc n) this = drain_loop beh n s)
             | Raised x s \<Rightarrow> reached \<noteq> [] \<and> (\<forall>n. drain_loop beh (Suc n) this = Some (Raised x s))"
    using c assms by (cases ?out) simp_all
  with a b show ?thesis unfolding Let_def by blast
qed

text \<open>
  A whole drain: the entries served are an initial part of the queue extended by the
  entries enqueued meanwhile (as many as timers were scheduled), the invocations are made
  entry by entry in that order, and what is not served is still in the queue, in order.
\<close>

lemma drain_loop_serves_a_prefix:
  "drain_loop beh n this = Some r \<Longrightarrow>
   \<exists>k new tss. timers (state_of r) = timers this + length new
     \<and> k \<le> length (logQueue this @ new)
     \<and> logQueue (state_of r) = drop k (logQueue this @ new)
     \<and> length tss = k
     \<and> invocations (state_of r) =
         invocations this @ concat (map2 dispatch tss (take k (logQueue this @ new)))
     \<and> (\<forall>s. r = Returned s \<longrightarrow> logQueue s = [])"
proof (induction n arbitrary: this r)
  case 0
  then show ?case by simp
next
  case (Suc n)
  show ?case
  proof (cases "logQueue this")
    case Nil
    with Suc.prems have "r = Returned this" by simp
    with Nil have "timers (state_of r) = timers this + length ([] :: 'a QueueEntry list)
       \<and> 0 \<le> length (logQueue this @ [])
       \<and> logQueue (state_of r) = drop 0 (logQueue this @ [])
       \<and> length ([] :: Transport list list) = 0
       \<and> invocations (state_of r) =
           invocations this @ concat (map2 dispatch [] (take 0 (logQueue this @ [])))
       \<and> (\<forall>s. r = Returned s \<longrightarrow> logQueue s = [])"
      by (simp add: state_of_simps)
    then show ?thesis by blast
  next
    case (Cons e q)
    let ?out = "forEach beh (transports (config this)) e (this\<lparr>logQueue := q\<rparr>)"
    from forEach_effect [of "transports (config this)" beh e "this\<lparr>logQueue := q\<rparr>"]
    obtain n1 d where q1: "logQueue (state_of ?out) = q @ n1"
      and t1: "timers (state_of ?out) = timers this + length n1"
      and i1: "invocations (state_of ?out) = invocations this @ dispatch d e"
      by auto
    show ?thesis
    proof (cases ?out)
      case (Raised x s)
      with Suc.prems Cons have "r = Raised x s" by simp
      with Raised q1 t1 i1 Cons have "timers (state_of r) = timers this + length n1
         \<and> Suc 0 \<le> length (logQueue this @ n1)
         \<and> logQueue (state_of r) = drop (Suc 0) (logQueue this @ n1)
         \<and> length [d] = Suc 0
         \<and> invocations (state_of r) =
             invocations this @ concat (map2 dispatch [d] (take (Suc 0) (logQueue this @ n1)))
         \<and> (\<forall>s. r = Returned s \<longrightarrow> logQueue s = [])"
        by (simp add: state_of_simps)
      then show ?thesis by blast
    next
      case (Returned s)
      with Suc.prems Cons have "drain_loop beh n s = Some r" by simp
      from Suc.IH [OF this] obtain k new tss where
        "timers (state_of r) = timers s + length new"
        "k \<le> length (logQueue s @ new)"
        "logQueue (state_of r) = drop k (logQueue s @ new)" "length tss = k"
        "invocations (state_of r) =
           invocations s @ concat (map2 dispatch tss (take k (logQueue s @ new)))"
        "\<forall>s. r = Returned s \<longrightarrow> logQueue s = []"
        by blast
      with Returned q1 t1 i1 Cons have "timers (state_of r) = timers this + length (n1 @ new)
         \<and> Suc k \<le> length (logQueue this @ (n1 @ new))
         \<and> logQueue (state_of r) = drop (Suc k) (logQueue this @ (n1 @ new))
         \<and> length (d # tss) = Suc k
         \<and> invocations (state_of r) =
             invocations this @
               concat (map2 dispatch (d # tss) (take (Suc k) (logQueue this @ (n1 @ new))))
         \<and> (\<forall>s. r = Returned s \<longrightarrow> logQueue s = [])"
        by (simp add: state_of_simps)
      then show ?thesis by blast
    qed
  qed
qed

lemma processQueue_serves_a_prefix:
  assumes "processQueue beh n this = Some r"
  shows "\<exists>k new tss. timers (state_of r) = timers this + length new
     \<and> k \<le> length (logQueue this @ new)
     \<and> logQueue (state_of r) = drop k (logQueue this @ new)
     \<and> length tss = k
     \<and> invocations (state_of r) =
         invocations this @ concat (map2 dispatch tss (take k (logQueue this @ new)))
     \<and> (\<forall>s. r = Returned s \<and> \<not> isProcessing this \<longrightarrow> logQueue s = [])"
proof (cases "isProcessing this")
  case True
  with assms have "r = Returned this" by (simp add: processQueue_def)
  with True have "timers (state_of r) = timers this + length ([] :: 'a QueueEntry list)
     \<and> 0 \<le> length (logQueue this @ [])
     \<and> logQueue (state_of r) = drop 0 (logQueue this @ [])
     \<and> length ([] :: Transport list list) = 0
     \<and> invocations (state_of r) =
         invocations this @ concat (map2 dispatch [] (take 0 (logQueue this @ [])))
     \<and> (\<forall>s. r = Returned s \<and> \<not> isProcessing this \<longrightarrow> logQueue s = [])"
    by (simp add: state_of_simps)
  then show ?thesis by blast
next
  case False
  with assms obtain r' where d: "drain_loop beh n (this\<lparr>isProcessing := True\<rparr>) = Some r'"
    and q: "logQueue (state_of r) = logQueue (state_of r')"
    and t: "timers (state_of r) = timers (state_of r')"
    and i: "invocations (state_of r) = invocations (state_of r')"
    and e: "\<forall>s. r = Returned s \<longrightarrow> (\<exists>s'. r' = Returned s')"
    by (auto simp add: processQueue_def state_of_simps split: option.splits outcome.splits)
  from drain_loop_serves_a_prefix [OF d] obtain k new tss where
    "timers (state_of r') = timers this + length new"
    "k \<le> length (logQueue this @ new)"
    "logQueue (state_of r') = drop k (logQueue this @ new)" "length tss = k"
    "invocations (state_of r') =
       invocations this @ concat (map2 dispatch tss (take k (logQueue this @ new)))"
    "\<forall>s. r' = Returned s \<longrightarrow> logQueue s = []"
    by auto
  with q t i e have "timers (state_of r) = timers this + length new
     \<and> k \<le> length (logQueue this @ new)
     \<and> logQueue (state_of r) = drop k (logQueue this @ new)
     \<and> length tss = k
     \<and> invocations (state_of r) =
         invocations this @ concat (map2 dispatch tss (take k (logQueue this @ new)))
     \<and> (\<forall>s. r = Returned s \<and> \<not> isProcessing this \<longrightarrow> logQueue s = [])"
    by (auto simp add: state_of_simps)
  then show ?thesis by blast
qed

subsection \<open>Transports that never enqueue, and one that always does\<close>

lemma forEach_keeps_queue:
  "never_enqueues beh \<Longrightarrow> logQueue (state_of (forEach beh ts e this)) = logQueue this"
proof (induction ts arbitrary: this)
  case Nil
  show ?case by (simp add: state_of_def)
next
  case (Cons t ts)
  have one: "logQueue (state_of (transport_log beh t (level e) (message e) (meta e) this)) = logQueue this"
    using Cons.prems by (simp add: never_enqueues_def)
  show ?case
  proof (cases "transport_log beh t (level e) (message e) (meta e) this")
    case (Returned this')
    with one have "logQueue this' = logQueue this" by (simp add: state_of_def)
    with Returned Cons.IH [OF Cons.prems, of this'] show ?thesis by simp
  next
    case (Raised x this')
    with one show ?thesis by (simp add: state_of_def)
  qed
qed

text \<open>
  With a transport that logs again on every invocation the loop has no end: no amount of
  fuel is enough.
\<close>

lemma drain_loop_never_returns:
  "logQueue this \<noteq> [] \<Longrightarrow> transports (config this) = [UserTransport 0] \<Longrightarrow>
   logLevel (config this) = ''debug'' \<Longrightarrow> drain_loop relogging n this = None"
proof (induction n arbitrary: this)
  case 0
  show ?case by simp
next
  case (Suc n)
  from Suc.prems(1) obtain e q where eq: "logQueue this = e # q" by (cases "logQueue this") auto
  let ?called = "this\<lparr>logQueue := q, invocations := invocations this @ [(UserTransport 0, level e, message e, meta e)]\<rparr>"
  let ?next = "error plain_host ''again'' [] ?called"
  have ok: "shouldLog (config this) (NODE_ENV (plain_host :: 'a host)) Error"
    using Suc.prems(3) by (simp add: shouldLog_def logLevels_def plain_host_def)
  have fe: "forEach relogging (transports (config this)) e (this\<lparr>logQueue := q\<rparr>) = Returned ?next"
    using Suc.prems(2) by (simp add: transport_log_def relogging_def)
  have "drain_loop relogging n ?next = None"
    using Suc.prems ok by (intro Suc.IH) (simp_all add: error_def enqueueLog_def)
  with fe eq show ?case by simp
qed

subsection \<open>The drain during which no transport enqueues\<close>

lemma drain_steps_one_more:
  "drain_steps beh (Suc k) this =
     (case drain_steps beh k this of
        Raised x s \<Rightarrow> Raised x s
      | Returned s \<Rightarrow> drain_steps beh (Suc 0) s)"
proof (induction k arbitrary: this)
  case 0
  show ?case by simp
next
  case (Suc k)
  show ?case
  proof (cases "logQueue this")
    case Nil
    then show ?thesis by simp
  next
    case (Cons e q)
    show ?thesis
    proof (cases "forEach beh (transports (config this)) e (this\<lparr>logQueue := q\<rparr>)")
      case (Returned s)
      with Cons Suc.IH [of s] show ?thesis by simp
    next
      case (Raised x s)
      with Cons show ?thesis by simp
    qed
  qed
qed

text \<open>The outcome with which the loop ends is the outcome after that many iterations.\<close>

lemma drain_loop_is_drain_steps:
  "drain_loop beh n this = Some r \<Longrightarrow> r = drain_steps beh n this"
proof (induction n arbitrary: this)
  case 0
  then show ?case by simp
next
  case (Suc n)
  show ?case
  proof (cases "logQueue this")
    case Nil
    with Suc.prems show ?thesis by simp
  next
    case (Cons e q)
    show ?thesis
    proof (cases "forEach beh (transports (config this)) e (this\<lparr>logQueue := q\<rparr>)")
      case (Returned s)
      with Cons Suc.prems Suc.IH [of s] show ?thesis by simp
    next
      case (Raised x s)
      with Cons Suc.prems show ?thesis by auto
    qed
  qed
qed

lemma no_enqueue_first_iteration:
  assumes h: "no_enqueue_during_drain beh this" and q: "logQueue this = e # q"
  shows "logQueue (state_of (forEach beh (transports (config this)) e (this\<lparr>logQueue := q\<rparr>))) = q"
    and "\<forall>s. forEach beh (transports (config this)) e (this\<lparr>logQueue := q\<rparr>) = Returned s \<longrightarrow>
           no_enqueue_during_drain beh s"
proof -
  let ?out = "forEach beh (transports (config this)) e (this\<lparr>logQueue := q\<rparr>)"
  have one: "state_of (drain_steps beh (Suc 0) this) = state_of ?out"
    using q by (cases ?out) (simp_all add: state_of_simps)
  from h have t: "timers (state_of ?out) = timers this"
    unfolding no_enqueue_during_drain_def one [symmetric] by blast
  from forEach_effect [of "transports (config this)" beh e "this\<lparr>logQueue := q\<rparr>"]
  obtain new where "logQueue (state_of ?out) = q @ new"
    "timers (state_of ?out) = timers this + length new"
    by auto
  with t show "logQueue (state_of ?out) = q" by simp
  show "\<forall>s. ?out = Returned s \<longrightarrow> no_enqueue_during_drain beh s"
  proof (intro allI impI)
    fix s assume r: "?out = Returned s"
    with t have ts: "timers s = timers this" by (simp add: state_of_simps)
    have "timers (state_of (drain_steps beh k s)) = timers s" for k
    proof -
      have "drain_steps beh (Suc k) this = drain_steps beh k s" using q r by simp
      with h show ?thesis unfolding no_enqueue_during_drain_def ts by metis
    qed
    then show "no_enqueue_during_drain beh s" by (simp add: no_enqueue_during_drain_def)
  qed
qed

lemma no_enqueue_later_iterations:
  "no_enqueue_during_drain beh this \<Longrightarrow> drain_steps beh k this = Returned s \<Longrightarrow>
   no_enqueue_during_drain beh s"
proof (induction k arbitrary: this)
  case 0
  then show ?case by simp
next
  case (Suc k)
  show ?case
  proof (cases "logQueue this")
    case Nil
    with Suc.prems show ?thesis by simp
  next
    case (Cons e q)
    show ?thesis
    proof (cases "forEach beh (transports (config this)) e (this\<lparr>logQueue := q\<rparr>)")
      case (Returned s1)
      with no_enqueue_first_iteration(2) [OF Suc.prems(1) Cons]
      have "no_enqueue_during_drain beh s1" by blast
      moreover from Suc.prems(2) Cons Returned have "drain_steps beh k s1 = Returned s" by simp
      ultimately show ?thesis by (rule Suc.IH)
    next
      case (Raised x s1)
      with Suc.prems(2) Cons show ?thesis by simp
    qed
  qed
qed

lemma no_enqueue_queue_after:
  "no_enqueue_during_drain beh this \<Longrightarrow> k \<le> length (logQueue this) \<Longrightarrow>
   drain_steps beh k this = Returned s \<Longrightarrow> logQueue s = drop k (logQueue this)"
proof (induction k arbitrary: this)
  case 0
  then show ?case by simp
next
  case (Suc k)
  from Suc.prems(2) obtain e q where Cons: "logQueue this = e # q"
    by (cases "logQueue this") auto
  show ?case
  proof (cases "forEach beh (transports (config this)) e (this\<lparr>logQueue := q\<rparr>)")
    case (Returned s1)
    with no_enqueue_first_iteration [OF Suc.prems(1) Cons]
    have s1: "logQueue s1 = q" "no_enqueue_during_drain beh s1"
      by (simp_all add: state_of_simps)
    from Suc.prems(3) Cons Returned have "drain_steps beh k s1 = Returned s" by simp
    with Suc.IH [of s1] s1 Suc.prems(2) Cons show ?thesis by simp
  next
    case (Raised x s1)
    with Suc.prems(3) Cons show ?thesis by simp
  qed
qed

lemma no_enqueue_drain_ends:
  "no_enqueue_during_drain beh this \<Longrightarrow> length (logQueue this) < n \<Longrightarrow>
   drain_loop beh n this = Some (drain_steps beh (length (logQueue this)) this)"
proof (induction n arbitrary: this)
  case 0
  then show ?case by simp
next
  case (Suc n)
  show ?case
  proof (cases "logQueue this")
    case Nil
    then show ?thesis by simp
  next
    case (Cons e q)
    show ?thesis
    proof (cases "forEach beh (transports (config this)) e (this\<lparr>logQueue := q\<rparr>)")
      case (Returned s1)
      with no_enqueue_first_iteration [OF Suc.prems(1) Cons]
      have s1: "logQueue s1 = q" "no_enqueue_during_drain beh s1"
        by (simp_all add: state_of_simps)
      with Suc.prems(2) Cons have "length (logQueue s1) < n" by simp
      from Suc.IH [OF s1(2) this] Returned Cons s1(1) show ?thesis by simp
    next
      case (Raised x s1)
      with Cons show ?thesis by simp
    qed
  qed
qed

text \<open>
  Transports that never change the queue, in whatever state they are called, do not
  enqueue during any drain.
\<close>

lemma never_enqueues_during_no_drain:
  assumes "never_enqueues beh"
  shows "no_enqueue_during_drain beh this"
proof -
  have fe: "timers (state_of (forEach beh ts e s)) = timers s" for ts e s
  proof -
    from forEach_effect [of ts beh e s] obtain new where
      "logQueue (state_of (forEach beh ts e s)) = logQueue s @ new"
      "timers (state_of (forEach beh ts e s)) = timers s + length new"
      by auto
    with forEach_keeps_queue [OF assms, of ts e s] show ?thesis by simp
  qed
  have "timers (state_of (drain_steps beh k s)) = timers s" for k s
  proof (induction k arbitrary: s)
    case 0
    show ?case by (simp add: state_of_simps)
  next
    case (Suc k)
    show ?case
    proof (cases "logQueue s")
      case Nil
      then show ?thesis by (simp add: state_of_simps)
    next
      case (Cons e q)
      show ?thesis
      proof (cases "forEach beh (transports (config s)) e (s\<lparr>logQueue := q\<rparr>)")
        case (Returned s1)
        with fe [of "transports (config s)" e "s\<lparr>logQueue := q\<rparr>"]
        have "timers s1 = timers s" by (simp add: state_of_simps)
        with Returned Cons Suc.IH [of s1] show ?thesis by simp
      next
        case (Raised x s1)
        with fe [of "transports (config s)" e "s\<lparr>logQueue := q\<rparr>"] Cons
        show ?thesis by (simp add: state_of_simps)
      qed
    qed
  qed
  then show ?thesis by (simp add: no_enqueue_during_drain_def)
qed

subsection \<open>The processing flag after an exception\<close>

text \<open>
  Nothing a transport does changes \<open>isProcessing\<close>. An exception leaves \<open>processQueue\<close>
  before the flag is reset, and from then on every \<open>processQueue\<close> returns at its first
  line, whatever is enqueued.
\<close>

lemma perform_isProcessing: "isProcessing (state_of (perform as this)) = isProcessing this"
proof (induction as arbitrary: this)
  case Nil
  show ?case by (simp add: state_of_simps)
next
  case (Cons a as)
  show ?case
    by (cases a) (simp_all add: state_of_simps Cons.IH log_method_frame configure_def addTransport_def)
qed

lemma transport_log_isProcessing:
  "isProcessing (state_of (transport_log beh t lv msg m this)) = isProcessing this"
  by (cases t)
    (simp_all add: transport_log_def ConsoleTransport_log_def Let_def perform_isProcessing
       state_of_simps)

lemma forEach_isProcessing:
  "isProcessing (state_of (forEach beh ts e this)) = isProcessing this"
proof (induction ts arbitrary: this)
  case Nil
  show ?case by (simp add: state_of_def)
next
  case (Cons t ts)
  show ?case
  proof (cases "transport_log beh t (level e) (message e) (meta e) this")
    case (Returned this')
    with transport_log_isProcessing [of beh t "level e" "message e" "meta e" this]
    have "isProcessing this' = isProcessing this" by (simp add: state_of_def)
    with Returned Cons.IH [of this'] show ?thesis by simp
  next
    case (Raised x this')
    with transport_log_isProcessing [of beh t "level e" "message e" "meta e" this]
    show ?thesis by (simp add: state_of_def)
  qed
qed

lemma drain_loop_isProcessing:
  "drain_loop beh n this = Some r \<Longrightarrow> isProcessing (state_of r) = isProcessing this"
proof (induction n arbitrary: this)
  case 0
  then show ?case by simp
next
  case (Suc n)
  show ?case
  proof (cases "logQueue this")
    case Nil
    with Suc.prems show ?thesis by (auto simp add: state_of_def)
  next
    case (Cons e q)
    note fe = forEach_isProcessing [of beh "transports (config this)" e "this\<lparr>logQueue := q\<rparr>"]
    show ?thesis
    proof (cases "forEach beh (transports (config this)) e (this\<lparr>logQueue := q\<rparr>)")
      case (Returned this')
      with fe have "isProcessing this' = isProcessing this" by (simp add: state_of_def)
      moreover from Suc.prems Cons Returned have "drain_loop beh n this' = Some r" by simp
      ultimately show ?thesis using Suc.IH [of this'] by simp
    next
      case (Raised x this')
      with Suc.prems Cons fe show ?thesis by (auto simp add: state_of_def)
    qed
  qed
qed

lemma processQueue_while_processing:
  "isProcessing this \<Longrightarrow> processQueue beh n this = Some (Returned this)"
  by (simp add: processQueue_def)

lemma raise_leaves_flag_set:
  assumes "processQueue beh n this = Some (Raised x this')"
  shows "isProcessing this'"
proof -
  from assms have np: "\<not> isProcessing this"
    by (auto simp add: processQueue_def split: if_splits)
  with assms have "drain_loop beh n (this\<lparr>isProcessing := True\<rparr>) = Some (Raised x this')"
    by (auto simp add: processQueue_def split: option.splits outcome.splits)
  from drain_loop_isProcessing [OF this] show ?thesis by (simp add: state_of_def)
qed

lemma no_drain_after_a_raise:
  assumes "processQueue beh n this = Some (Raised x this')"
  shows "processQueue beh m (log_calls cs this') = Some (Returned (log_calls cs this'))"
proof -
  have "isProcessing (log_calls cs this')"
    using raise_leaves_flag_set [OF assms] log_calls_frame [of cs this'] by simp
  then show ?thesis by (rule processQueue_while_processing)
qed

subsection \<open>Caller info\<close>

text \<open>
  \<open>getCallerInfo\<close> with caller info enabled: the value comes from the line at index 3 of
  the split stack; it is \<open>unknown\<close> when no pattern matches that line, when the stack
  has at most three lines and when there is no stack; a failure of the capture is caught
  and reported on the error console, and the log method returns with the entry enqueued.
\<close>

lemma getCallerInfo_cases:
  assumes on: "enableCallerInfo c"
  shows "(\<forall>s. 3 < length (split_lines s) \<longrightarrow>
            getCallerInfo c (StackString s) = (caller_of_line (split_lines s ! 3), []))
       \<and> (\<forall>l. line_match l = None \<longrightarrow> caller_of_line l = ''unknown'')
       \<and> (\<forall>s. length (split_lines s) \<le> 3 \<longrightarrow> getCallerInfo c (StackString s) = (''unknown'', []))
       \<and> getCallerInfo c StackUndefined = (''unknown'', [])
       \<and> (\<forall>e. getCallerInfo c (StackRaises e) =
                (''unknown'', [[Str ''Error getting caller info'', Val e]]))
       \<and> (\<forall>e. c = config this \<and> stack h = StackRaises e \<and> shouldLog c (NODE_ENV h) lv \<longrightarrow>
             log_method lv h msg ps this =
               this\<lparr>logQueue := logQueue this @
                        [\<lparr>level = lv, message = msg,
                          meta = \<lparr>timestamp = getTimestamp c h, callerInfo = ''unknown'',
                                  optionalParams = ps\<rparr>\<rparr>],
                    console_error := console_error this @
                        [[Str ''Error getting caller info'', Val e]],
                    timers := Suc (timers this)\<rparr>)"
  using on
  by (auto simp add: getCallerInfo_def caller_of_line_def Let_def log_method_unfold
        enqueueLog_def build_meta_def)

subsection \<open>The sample inputs\<close>

lemma sink_quiet: "sink quiet t"
  by (cases t) (simp_all add: sink_def quiet_def)

lemmas sample_defs = warn_logger_def two_sinks_def omit_all_def plain_host_def configure_def
  merge_config_def addTransport_def getInstance_def new_Log_def env_logLevel_def

lemma split_v8_stack: "split_lines v8_stack = ''Error'' # v8_frames"
  by (simp add: v8_stack_def v8_frames_def)

lemma caller_of_v8_frames:
  "map caller_of_line v8_frames =
     [''Log.getCallerInfo (/app/src/log.ts:94)'', ''Log.enqueueLog (/app/src/log.ts:132)'',
      ''Log.info (/app/src/log.ts:167)'', ''main (/app/src/main.ts:5)'']"
  by code_simp

lemma line_match_foreign: "line_match ''main@http://localhost/app.js:5:10'' = None"
  by code_simp

lemma getCallerInfo_samples:
  "getCallerInfo (config (two_sinks :: nat Log)) (StackString ''Error'') = (''unknown'', [])
   \<and> caller_of_line ''main@http://localhost/app.js:5:10'' = ''unknown''
   \<and> getCallerInfo (config (two_sinks :: nat Log)) (StackRaises (5::nat)) =
       (''unknown'', [[Str ''Error getting caller info'', Val 5]])
   \<and> map (callerInfo \<circ> meta) (logQueue (warn failing_capture ''w'' [] two_sinks)) = [''unknown'']
   \<and> console_error (warn failing_capture ''w'' [] two_sinks) =
       [[Str ''Error getting caller info'', Val 5]]"
proof -
  have on: "enableCallerInfo (config (two_sinks :: nat Log))" by (simp add: sample_defs)
  note t = getCallerInfo_cases [OF on, where this = two_sinks
      and h = failing_capture and lv = Warn and msg = "''w''" and ps = "[]"]
  have ok: "shouldLog (config (two_sinks :: nat Log)) (NODE_ENV failing_capture) Warn"
    by (simp add: sample_defs failing_capture_def shouldLog_def logLevels_def)
  have q: "logQueue (two_sinks :: nat Log) = []" "console_error (two_sinks :: nat Log) = []"
    by (simp_all add: sample_defs)
  note t2 = t [THEN conjunct2, THEN conjunct1, rule_format]
  note t3 = t [THEN conjunct2, THEN conjunct2, THEN conjunct1, rule_format]
  note t5 = t [THEN conjunct2, THEN conjunct2, THEN conjunct2, THEN conjunct2, THEN conjunct1,
      rule_format]
  note t6 = t [THEN conjunct2, THEN conjunct2, THEN conjunct2, THEN conjunct2, THEN conjunct2,
      rule_format]
  have b: "caller_of_line ''main@http://localhost/app.js:5:10'' = ''unknown''"
    using t2 [OF line_match_foreign] .
  have c: "getCallerInfo (config (two_sinks :: nat Log)) (StackString ''Error'') = (''unknown'', [])"
    using t3 [of "''Error''"] by simp
  have d: "getCallerInfo (config (two_sinks :: nat Log)) (StackRaises 5) =
       (''unknown'', [[Str ''Error getting caller info'', Val 5]])"
    using t5 [of 5] .
  have e: "warn failing_capture ''w'' [] (two_sinks :: nat Log) =
      two_sinks\<lparr>logQueue := logQueue two_sinks @
                        [\<lparr>level = Warn, message = ''w'',
                          meta = \<lparr>timestamp = getTimestamp (config two_sinks) failing_capture,
                                  callerInfo = ''unknown'', optionalParams = []\<rparr>\<rparr>],
                    console_error := console_error two_sinks @
                        [[Str ''Error getting caller info'', Val 5]],
                    timers := Suc (timers two_sinks)\<rparr>"
    using t6 [of 5] ok by (simp add: failing_capture_def)
  show ?thesis using b c d e by (simp add: q)
qed

text \<open>
  The transports of \<open>logs_debug\<close> enqueue under the default threshold, and do not under
  the threshold \<open>error\<close>, where their \<open>debug\<close> call is refused.
\<close>

lemma logs_debug_may_enqueue: "\<not> never_enqueues (logs_debug :: nat behaviour)"
proof
  assume "never_enqueues (logs_debug :: nat behaviour)"
  then have "logQueue (state_of (transport_log logs_debug (UserTransport 0) Info ''m''
                 \<lparr>timestamp = [], callerInfo = [], optionalParams = []\<rparr> (getInstance None None)))
             = logQueue (getInstance None None :: nat Log)"
    unfolding never_enqueues_def by blast
  then show False
    by (simp add: transport_log_def logs_debug_def debug_def enqueueLog_def shouldLog_def
          logLevels_def getInstance_def new_Log_def env_logLevel_def plain_host_def
          state_of_simps)
qed

lemma logs_debug_refused:
  assumes "logLevel (config s) = ''error''"
  shows "\<exists>s'. transport_log logs_debug t lv msg m s = Returned s'
           \<and> config s' = config s \<and> timers s' = timers s"
proof (cases t)
  case ConsoleTransport
  then show ?thesis by (simp add: transport_log_def ConsoleTransport_log_def Let_def)
next
  case (UserTransport k)
  with assms show ?thesis
    by (simp add: transport_log_def Let_def logs_debug_def debug_def shouldLog_def logLevels_def
          plain_host_def)
qed

lemma logs_debug_forEach:
  "logLevel (config s) = ''error'' \<Longrightarrow>
   \<exists>s'. forEach logs_debug ts e s = Returned s' \<and> config s' = config s \<and> timers s' = timers s"
proof (induction ts arbitrary: s)
  case Nil
  show ?case by simp
next
  case (Cons t ts)
  from logs_debug_refused [OF Cons.prems, of t "level e" "message e" "meta e"] obtain s1 where
    s1: "transport_log logs_debug t (level e) (message e) (meta e) s = Returned s1"
      "config s1 = config s" "timers s1 = timers s"
    by blast
  with Cons.prems have "logLevel (config s1) = ''error''" by simp
  from Cons.IH [OF this] s1 show ?case by auto
qed

lemma logs_debug_no_enqueue:
  "logLevel (config s) = ''error'' \<Longrightarrow> no_enqueue_during_drain logs_debug s"
proof -
  have "logLevel (config s) = ''error'' \<Longrightarrow> timers (state_of (drain_steps logs_debug k s)) = timers s"
    for k and s :: "'a Log"
  proof (induction k arbitrary: s)
    case 0
    show ?case by (simp add: state_of_simps)
  next
    case (Suc k)
    show ?case
    proof (cases "logQueue s")
      case Nil
      then show ?thesis by (simp add: state_of_simps)
    next
      case (Cons e q)
      from Suc.prems have "logLevel (config (s\<lparr>logQueue := q\<rparr>)) = ''error''" by simp
      from logs_debug_forEach [OF this, of "transports (config s)" e] obtain s1 where
        s1: "forEach logs_debug (transports (config s)) e (s\<lparr>logQueue := q\<rparr>) = Returned s1"
          "config s1 = config s" "timers s1 = timers s"
        by auto
      with Suc.prems have "logLevel (config s1) = ''error''" by simp
      from Suc.IH [OF this] s1 Cons show ?thesis by simp
    qed
  qed
  then show "logLevel (config s) = ''error'' \<Longrightarrow> no_enqueue_during_drain logs_debug s"
    by (simp add: no_enqueue_during_drain_def)
qed

section \<open>The claims\<close>

text \<open>
  C1. The queue is one list shared by all levels. A sequence of log calls appends the
  entries of the permitted calls at its back, in call order (a refused call adds nothing:
  dropping happens before the enqueue only). Whatever the transports do, every iteration
  of the drain serves the entry at the front: that entry goes to the registered
  transports in registration order (to all of them, or up to the one that raises), the
  rest of the queue stays in front in its order, what is enqueued meanwhile is behind
  it, and the loop goes on from there. So a drain serves an initial part of the queue
  extended by the entries enqueued meanwhile, makes its invocations entry by entry in
  that order and leaves what it has not served in the queue, in order; when it returns
  it has served everything. When the logger is idle and the registered transports are
  sinks, every entry goes to every registered transport and the queue is empty
  afterwards.
\<close>

theorem drain_is_fifo:
  shows "logQueue (log_calls cs this) =
           logQueue this @ map (entry_of (config this)) (filter (permitted (config this)) cs)
       \<and> (\<forall>e q. logQueue this = e # q \<longrightarrow>
            (\<exists>new reached rest. transports (config this) = reached @ rest
               \<and> (let out = forEach beh (transports (config this)) e (this\<lparr>logQueue := q\<rparr>)
                  in logQueue (state_of out) = q @ new
                   \<and> timers (state_of out) = timers this + length new
                   \<and> invocations (state_of out) = invocations this @ dispatch reached e
                   \<and> (case out of
                         Returned s \<Rightarrow>
                           rest = [] \<and> (\<forall>n. drain_loop beh (Suc n) this = drain_loop beh n s)
                       | Raised x s \<Rightarrow>
                           reached \<noteq> []
                           \<and> (\<forall>n. drain_loop beh (Suc n) this = Some (Raised x s))))))
       \<and> (\<forall>r. processQueue beh fuel (log_calls cs this) = Some r \<longrightarrow>
            (\<exists>k new tss.
               timers (state_of r) = timers (log_calls cs this) + length new
               \<and> k \<le> length (logQueue (log_calls cs this) @ new)
               \<and> logQueue (state_of r) = drop k (logQueue (log_calls cs this) @ new)
               \<and> length tss = k
               \<and> invocations (state_of r) = invocations this @
                   concat (map2 dispatch tss (take k (logQueue (log_calls cs this) @ new)))
               \<and> (\<forall>s. r = Returned s \<and> \<not> isProcessing this \<longrightarrow> logQueue s = [])))
       \<and> (\<not> isProcessing this \<and> (\<forall>t\<in>set (transports (config this)). sink beh t)
            \<and> length (logQueue this) + length cs < fuel \<longrightarrow>
            (\<exists>this'. processQueue beh fuel (log_calls cs this) = Some (Returned this')
               \<and> invocations this' = invocations this @
                   concat (map (dispatch (transports (config this)))
                     (logQueue this @
                        map (entry_of (config this)) (filter (permitted (config this)) cs)))
               \<and> logQueue this' = [] \<and> \<not> isProcessing this'))"
proof -
  let ?s = "log_calls cs this"
  have fr: "config ?s = config this" "isProcessing ?s = isProcessing this"
    "invocations ?s = invocations this"
    using log_calls_frame [of cs this] by simp_all
  have q: "logQueue ?s = logQueue this @ map (entry_of (config this)) (filter (permitted (config this)) cs)"
    by (rule log_calls_queue)
  have step: "\<forall>e q. logQueue this = e # q \<longrightarrow>
            (\<exists>new reached rest. transports (config this) = reached @ rest
               \<and> (let out = forEach beh (transports (config this)) e (this\<lparr>logQueue := q\<rparr>)
                  in logQueue (state_of out) = q @ new
                   \<and> timers (state_of out) = timers this + length new
                   \<and> invocations (state_of out) = invocations this @ dispatch reached e
                   \<and> (case out of
                         Returned s \<Rightarrow>
                           rest = [] \<and> (\<forall>n. drain_loop beh (Suc n) this = drain_loop beh n s)
                       | Raised x s \<Rightarrow>
                           reached \<noteq> []
                           \<and> (\<forall>n. drain_loop beh (Suc n) this = Some (Raised x s)))))"
    using iteration_serves_the_front [of this _ _ beh] by blast
  have general: "\<exists>k new tss.
               timers (state_of r) = timers ?s + length new
               \<and> k \<le> length (logQueue ?s @ new)
               \<and> logQueue (state_of r) = drop k (logQueue ?s @ new)
               \<and> length tss = k
               \<and> invocations (state_of r) = invocations this @
                   concat (map2 dispatch tss (take k (logQueue ?s @ new)))
               \<and> (\<forall>s. r = Returned s \<and> \<not> isProcessing this \<longrightarrow> logQueue s = [])"
    if "processQueue beh fuel ?s = Some r" for r
    using processQueue_serves_a_prefix [OF that] by (simp only: fr)
  have exact: "\<exists>this'. processQueue beh fuel ?s = Some (Returned this')
               \<and> invocations this' = invocations this @
                   concat (map (dispatch (transports (config this)))
                     (logQueue this @
                        map (entry_of (config this)) (filter (permitted (config this)) cs)))
               \<and> logQueue this' = [] \<and> \<not> isProcessing this'"
    if idle: "\<not> isProcessing this"
      and sinks: "\<forall>t\<in>set (transports (config this)). sink beh t"
      and fuel: "length (logQueue this) + length cs < fuel"
  proof -
    have len: "length (logQueue ?s) < fuel"
    proof -
      have "length (filter (permitted (config this)) cs) \<le> length cs"
        by (rule length_filter_le)
      with fuel show ?thesis by (simp add: q del: length_filter_le)
    qed
    have "processQueue beh fuel ?s =
       Some (Returned (?s\<lparr>logQueue := [],
          invocations := invocations ?s @ concat (map (dispatch (transports (config ?s))) (logQueue ?s)),
          console_log := console_log ?s @ concat (map (console_writes (config ?s)) (logQueue ?s))\<rparr>))"
      using idle sinks len by (intro processQueue_sinks) (simp_all add: fr)
    then show ?thesis using idle by (simp add: fr q)
  qed
  from q step general exact show ?thesis by blast
qed

theorem drain_is_fifo_witness:
  "(\<exists>this'. processQueue quiet 4
       (log_calls [(plain_host, Info, ''a'', [1]),
                   (plain_host\<lparr>NODE_ENV := Some ''production''\<rparr>, Error, ''b'', []),
                   (plain_host, Debug, ''c'', [])] two_sinks) = Some (Returned this')
     \<and> map (\<lambda>(t, lv, msg, m). (t, lv, msg)) (invocations this') =
         [(ConsoleTransport, Info, ''a''), (UserTransport 0, Info, ''a''),
          (ConsoleTransport, Debug, ''c''), (UserTransport 0, Debug, ''c'')])
   \<and> (\<exists>x s tss. processQueue throws_on_boom 5 boom_then_next = Some (Raised x s)
         \<and> map message (logQueue boom_then_next) = [''boom'', ''next'']
         \<and> logQueue s = drop 1 (logQueue boom_then_next)
         \<and> length tss = 1
         \<and> invocations s = concat (map2 dispatch tss (take 1 (logQueue boom_then_next))))"
proof -
  have idle: "\<not> isProcessing two_sinks"
    by (simp add: two_sinks_def addTransport_def getInstance_def new_Log_def)
  have sinks: "\<forall>t\<in>set (transports (config two_sinks)). sink quiet t"
    by (simp add: sink_quiet)
  have fuel: "length (logQueue two_sinks) + length [(plain_host, Info, ''a'', [1::nat]),
                   (plain_host\<lparr>NODE_ENV := Some ''production''\<rparr>, Error, ''b'', []),
                   (plain_host, Debug, ''c'', [])] < 4"
    by (simp add: two_sinks_def addTransport_def getInstance_def new_Log_def)
  from drain_is_fifo [of _ two_sinks quiet 4] idle sinks fuel obtain this' where
    r: "processQueue quiet 4
       (log_calls [(plain_host, Info, ''a'', [1]),
                   (plain_host\<lparr>NODE_ENV := Some ''production''\<rparr>, Error, ''b'', []),
                   (plain_host, Debug, ''c'', [])] two_sinks) = Some (Returned this')"
    and inv: "invocations this' = invocations two_sinks @
               concat (map (dispatch (transports (config two_sinks)))
                 (logQueue two_sinks @ map (entry_of (config two_sinks))
                    (filter (permitted (config two_sinks))
                       [(plain_host, Info, ''a'', [1]),
                        (plain_host\<lparr>NODE_ENV := Some ''production''\<rparr>, Error, ''b'', []),
                        (plain_host, Debug, ''c'', [])])))"
    by blast
  have m: "map (\<lambda>(t, lv, msg, m). (t, lv, msg)) (invocations this') =
         [(ConsoleTransport, Info, ''a''), (UserTransport 0, Info, ''a''),
          (ConsoleTransport, Debug, ''c''), (UserTransport 0, Debug, ''c'')]"
    unfolding inv
    by (simp add: two_sinks_def addTransport_def getInstance_def new_Log_def plain_host_def
          permitted_def entry_of_def dispatch_def shouldLog_def logLevels_def env_logLevel_def)
  have first: "\<exists>this'. processQueue quiet 4
       (log_calls [(plain_host, Info, ''a'', [1]),
                   (plain_host\<lparr>NODE_ENV := Some ''production''\<rparr>, Error, ''b'', []),
                   (plain_host, Debug, ''c'', [])] two_sinks) = Some (Returned this')
     \<and> map (\<lambda>(t, lv, msg, m). (t, lv, msg)) (invocations this') =
         [(ConsoleTransport, Info, ''a''), (UserTransport 0, Info, ''a''),
          (ConsoleTransport, Debug, ''c''), (UserTransport 0, Debug, ''c'')]"
    by (intro exI conjI) (rule r, rule m)
  have ev: "map_option (\<lambda>r. (case r of Returned s \<Rightarrow> False | Raised x s \<Rightarrow> True,
                 timers (state_of r), length (logQueue (state_of r))))
              (processQueue throws_on_boom 5 boom_then_next) = Some (True, 2, 1)"
    by code_simp
  have st: "timers boom_then_next = 2" "invocations boom_then_next = []"
    "map message (logQueue boom_then_next) = [''boom'', ''next'']"
    by code_simp+
  from ev obtain r0 where r0: "processQueue throws_on_boom 5 boom_then_next = Some r0"
    "case r0 of Returned s \<Rightarrow> False | Raised x s \<Rightarrow> True"
    "timers (state_of r0) = 2" "length (logQueue (state_of r0)) = 1"
    by auto
  then obtain x s where run: "processQueue throws_on_boom 5 boom_then_next = Some (Raised x s)"
    and ts: "timers s = 2" and ls: "length (logQueue s) = 1"
    by (cases r0) (simp_all add: state_of_simps)
  from drain_is_fifo [of "[]" boom_then_next throws_on_boom 5, THEN conjunct2, THEN conjunct2,
      THEN conjunct1, rule_format, of "Raised x s"] run
  obtain k new tss where
    g: "timers s = timers boom_then_next + length new"
      "logQueue s = drop k (logQueue boom_then_next @ new)" "length tss = k"
      "invocations s = invocations boom_then_next @
         concat (map2 dispatch tss (take k (logQueue boom_then_next @ new)))"
    by (auto simp add: state_of_simps)
  from g(1) ts st(1) have new: "new = []" by simp
  from st(3) have "length (logQueue boom_then_next) = 2"
    by (metis length_map length_Cons list.size(3) numeral_2_eq_2)
  with g(2) ls new have k: "k = 1" by simp
  from run st(3) g k new st(2) have second:
    "\<exists>x s tss. processQueue throws_on_boom 5 boom_then_next = Some (Raised x s)
         \<and> map message (logQueue boom_then_next) = [''boom'', ''next'']
         \<and> logQueue s = drop 1 (logQueue boom_then_next)
         \<and> length tss = 1
         \<and> invocations s = concat (map2 dispatch tss (take 1 (logQueue boom_then_next)))"
    by auto
  from first second show ?thesis by (rule conjI)
qed

text \<open>
  C2. \<open>shouldLog\<close> first refuses every call in production mode, whatever the level and
  the threshold; otherwise, for a threshold that is one of the four levels, it permits a
  call exactly when the rank of its level is at least the rank of the threshold. A
  refused call leaves the logger as it was, so that it causes no transport invocation (a
  drain run after it invokes nothing); a permitted call causes, in the drain, exactly
  one invocation of each registered transport. With threshold \<open>warn\<close> that is: none for
  \<open>debug\<close> and \<open>info\<close>, one per transport for \<open>warn\<close> and \<open>error\<close>. The invocations
  are stated for an idle logger with an empty queue whose registered transports are sinks.
\<close>

theorem gating_production_then_rank:
  assumes idle: "\<not> isProcessing this" and empty: "logQueue this = []"
    and sinks: "\<forall>t\<in>set (transports (config this)). sink beh t"
  shows "(NODE_ENV h = Some ''production'' \<longrightarrow> \<not> shouldLog (config this) (NODE_ENV h) lv)
       \<and> (\<forall>th. logLevel (config this) = level_name th \<longrightarrow>
             shouldLog (config this) (NODE_ENV h) lv =
               (NODE_ENV h \<noteq> Some ''production'' \<and> rank th \<le> rank lv))
       \<and> (if shouldLog (config this) (NODE_ENV h) lv
          then \<exists>this'. processQueue beh (Suc (Suc n)) (log_method lv h msg ps this) = Some (Returned this')
                 \<and> invocations this' = invocations this @
                     map (\<lambda>t. (t, lv, msg, build_meta (config this) h ps)) (transports (config this))
          else log_method lv h msg ps this = this
                 \<and> processQueue beh (Suc n) (log_method lv h msg ps this) = Some (Returned this))"
proof -
  have p: "NODE_ENV h = Some ''production'' \<longrightarrow> \<not> shouldLog (config this) (NODE_ENV h) lv"
    by (simp add: shouldLog_def)
  have a: "\<forall>th. logLevel (config this) = level_name th \<longrightarrow>
             shouldLog (config this) (NODE_ENV h) lv =
               (NODE_ENV h \<noteq> Some ''production'' \<and> rank th \<le> rank lv)"
    by (simp add: shouldLog_def logLevels_level_name)
  have b: "processQueue beh (Suc n) this = Some (Returned this)"
    using idle empty by (simp add: processQueue_def)
  have c: "\<exists>this'. processQueue beh (Suc (Suc n)) (log_method lv h msg ps this) = Some (Returned this')
                 \<and> invocations this' = invocations this @
                     map (\<lambda>t. (t, lv, msg, build_meta (config this) h ps)) (transports (config this))"
    if ok: "shouldLog (config this) (NODE_ENV h) lv"
  proof -
    let ?s = "log_method lv h msg ps this"
    have q: "logQueue ?s = [\<lparr>level = lv, message = msg, meta = build_meta (config this) h ps\<rparr>]"
      using ok empty by (simp add: log_method_unfold enqueueLog_def)
    have "processQueue beh (Suc (Suc n)) ?s =
       Some (Returned (?s\<lparr>logQueue := [],
          invocations := invocations ?s @ concat (map (dispatch (transports (config ?s))) (logQueue ?s)),
          console_log := console_log ?s @ concat (map (console_writes (config ?s)) (logQueue ?s))\<rparr>))"
      using idle sinks by (intro processQueue_sinks) (simp_all add: log_method_frame q)
    then show ?thesis by (simp add: q log_method_frame dispatch_def)
  qed
  show ?thesis using p a b c by (simp add: log_method_unfold)
qed

theorem gating_production_then_rank_witness:
  "debug plain_host ''d'' [] warn_logger = warn_logger
   \<and> info plain_host ''i'' [] warn_logger = warn_logger
   \<and> (\<exists>this'. processQueue quiet 2 (warn plain_host ''w'' [] warn_logger) = Some (Returned this')
        \<and> map fst (invocations this') = [ConsoleTransport, UserTransport 0])
   \<and> (\<exists>this'. processQueue quiet 2 (error plain_host ''e'' [] warn_logger) = Some (Returned this')
        \<and> map fst (invocations this') = [ConsoleTransport, UserTransport 0])
   \<and> error (plain_host\<lparr>NODE_ENV := Some ''production''\<rparr>) ''e'' [] warn_logger = warn_logger"
proof -
  have thr: "logLevel (config warn_logger) = level_name Warn" by (simp add: sample_defs)
  have idle: "\<not> isProcessing warn_logger" by (simp add: sample_defs)
  have empty: "logQueue warn_logger = []" by (simp add: sample_defs)
  have sinks: "\<forall>t\<in>set (transports (config warn_logger)). sink quiet t"
    by (simp add: sink_quiet)
  note g = gating_production_then_rank [OF idle empty sinks, where n = 0]
  have ts: "transports (config warn_logger) = [ConsoleTransport, UserTransport 0]"
    "invocations warn_logger = []"
    by (simp_all add: sample_defs)
  have env: "NODE_ENV (plain_host :: nat host) = None" by (simp add: plain_host_def)
  have d: "debug plain_host ''d'' [] warn_logger = warn_logger"
  proof -
    note x = g [of plain_host Debug "''d''" "[]"]
    from x [THEN conjunct2, THEN conjunct1, rule_format, OF thr]
    have "\<not> shouldLog (config warn_logger) (NODE_ENV (plain_host :: nat host)) Debug"
      by (simp add: rank_def env)
    with x [THEN conjunct2, THEN conjunct2] show ?thesis by simp
  qed
  have i: "info plain_host ''i'' [] warn_logger = warn_logger"
  proof -
    note x = g [of plain_host Info "''i''" "[]"]
    from x [THEN conjunct2, THEN conjunct1, rule_format, OF thr]
    have "\<not> shouldLog (config warn_logger) (NODE_ENV (plain_host :: nat host)) Info"
      by (simp add: rank_def env)
    with x [THEN conjunct2, THEN conjunct2] show ?thesis by simp
  qed
  have w: "\<exists>this'. processQueue quiet 2 (warn plain_host ''w'' [] warn_logger) = Some (Returned this')
        \<and> map fst (invocations this') = [ConsoleTransport, UserTransport 0]"
  proof -
    note x = g [of plain_host Warn "''w''" "[]"]
    from x [THEN conjunct2, THEN conjunct1, rule_format, OF thr]
    have "shouldLog (config warn_logger) (NODE_ENV (plain_host :: nat host)) Warn"
      by (simp add: rank_def env)
    with x [THEN conjunct2, THEN conjunct2] show ?thesis
      by (auto simp add: ts numeral_2_eq_2)
  qed
  have e: "\<exists>this'. processQueue quiet 2 (error plain_host ''e'' [] warn_logger) = Some (Returned this')
        \<and> map fst (invocations this') = [ConsoleTransport, UserTransport 0]"
  proof -
    note x = g [of plain_host Error "''e''" "[]"]
    from x [THEN conjunct2, THEN conjunct1, rule_format, OF thr]
    have "shouldLog (config warn_logger) (NODE_ENV (plain_host :: nat host)) Error"
      by (simp add: rank_def env)
    with x [THEN conjunct2, THEN conjunct2] show ?thesis
      by (auto simp add: ts numeral_2_eq_2)
  qed
  have p: "error (plain_host\<lparr>NODE_ENV := Some ''production''\<rparr>) ''e'' [] warn_logger = warn_logger"
    using g [of "plain_host\<lparr>NODE_ENV := Some ''production''\<rparr>" Error "''e''" "[]"] by auto
  show ?thesis using d i w e p by simp
qed

text \<open>
  C3 (as stated, refuted). The claim: a level name that is absent or not one of the four
  recognized names makes the logger fall back to the threshold \<open>debug\<close>. The name
  \<open>verbose\<close> is not recognized; \<open>getInstance\<close> stores it as the threshold, and an
  \<open>error\<close> call, which the threshold \<open>debug\<close> permits, is refused.
\<close>

theorem unrecognized_level_counterexample:
  "logLevels ''verbose'' = None
   \<and> logLevel (config (getInstance (Some ''verbose'') None :: nat Log)) = ''verbose''
   \<and> \<not> shouldLog (config (getInstance (Some ''verbose'') None :: nat Log)) None Error
   \<and> shouldLog ((config (getInstance (Some ''verbose'') None :: nat Log))\<lparr>logLevel := ''debug''\<rparr>) None Error"
  by (simp add: getInstance_def new_Log_def env_logLevel_def shouldLog_def logLevels_def)

text \<open>
  C3 (amended). At first access the threshold is taken from the level-name source. When
  the name is absent or the empty string, the threshold is \<open>debug\<close> and the logger
  filters accordingly: outside production mode every call is permitted. Any other name
  is stored as it is; when it is not one of the four recognized names, no call is
  permitted.
\<close>

theorem level_fallback_absent_or_empty:
  fixes v :: "string option"
  defines "c \<equiv> config (getInstance v None :: 'v Log)"
  shows "(v = None \<or> v = Some [] \<longrightarrow>
            logLevel c = ''debug'' \<and> (\<forall>env lv. shouldLog c env lv = (env \<noteq> Some ''production'')))
       \<and> (\<forall>s. v = Some s \<and> s \<noteq> [] \<longrightarrow> logLevel c = s)
       \<and> (\<forall>s. v = Some s \<and> s \<noteq> [] \<and> logLevels s = None \<longrightarrow> (\<forall>env lv. \<not> shouldLog c env lv))"
proof -
  have r: "js_ge (logLevels (level_name lv)) (Some 0)" for lv
    by (simp add: logLevels_level_name)
  have d: "logLevels ''debug'' = Some 0" by (simp add: logLevels_def)
  show ?thesis
    by (auto simp add: c_def getInstance_def new_Log_def env_logLevel_def shouldLog_def r d)
qed

theorem level_fallback_absent_or_empty_witness:
  "logLevel (config (getInstance None None :: nat Log)) = ''debug''
   \<and> shouldLog (config (getInstance (Some []) None :: nat Log)) None Debug
   \<and> logLevel (config (getInstance (Some ''warn'') None :: nat Log)) = ''warn''
   \<and> \<not> shouldLog (config (getInstance (Some ''verbose'') None :: nat Log)) None Error"
proof -
  have u: "logLevels ''verbose'' = None" by (simp add: logLevels_def)
  show ?thesis
    using level_fallback_absent_or_empty [of None, where 'v = nat]
      level_fallback_absent_or_empty [of "Some []", where 'v = nat]
      level_fallback_absent_or_empty [of "Some ''warn''", where 'v = nat]
      level_fallback_absent_or_empty [of "Some ''verbose''", where 'v = nat] u
    by simp
qed

text \<open>
  C4 (the code departs from the claim). The claim: a transport that raises interrupts only
  the drain pass in which it raises, and a later enqueue schedules a drain that
  dispatches the entries still in the queue. In the code the exception leaves
  \<open>processQueue\<close> between \<open>isProcessing = true\<close> and \<open>isProcessing = false\<close>, so the flag
  stays set and every later \<open>processQueue\<close> returns at once. In the run below the
  transport throws on \<open>boom\<close>: \<open>next\<close> is never dispatched, neither by the second timer
  nor by the drain that the later call schedules, and \<open>later\<close> joins it in the queue.
\<close>

theorem failed_drain_blocks_later_drains:
  "map_option observe after_failure = Some ([''next''], True, 1, [''boom''])
   \<and> map_option observe after_second_timer = Some ([''next''], True, 0, [''boom''])
   \<and> map_option observe after_later_call = Some ([''next'', ''later''], True, 0, [''boom''])"
  by code_simp

text \<open>
  C5. \<open>configure\<close> leaves a field of the configuration unchanged when the partial
  configuration omits it and sets it to the given value otherwise; a given \<open>transports\<close>
  list replaces the current one; nothing but the configuration changes. \<open>addTransport\<close>
  appends the transport at the end of the current list and changes neither another field
  of the configuration nor anything else.
\<close>

theorem configure_merges_addTransport_appends:
  "(p_logLevel p = None \<longrightarrow> logLevel (config (configure p this)) = logLevel (config this))
   \<and> (\<forall>x. p_logLevel p = Some x \<longrightarrow> logLevel (config (configure p this)) = x)
   \<and> (p_enableTimestamps p = None \<longrightarrow>
        enableTimestamps (config (configure p this)) = enableTimestamps (config this))
   \<and> (\<forall>x. p_enableTimestamps p = Some x \<longrightarrow> enableTimestamps (config (configure p this)) = x)
   \<and> (p_enableCallerInfo p = None \<longrightarrow>
        enableCallerInfo (config (configure p this)) = enableCallerInfo (config this))
   \<and> (\<forall>x. p_enableCallerInfo p = Some x \<longrightarrow> enableCallerInfo (config (configure p this)) = x)
   \<and> (p_enableColors p = None \<longrightarrow>
        enableColors (config (configure p this)) = enableColors (config this))
   \<and> (\<forall>x. p_enableColors p = Some x \<longrightarrow> enableColors (config (configure p this)) = x)
   \<and> (p_humanReadableTimestamp p = None \<longrightarrow>
        humanReadableTimestamp (config (configure p this)) = humanReadableTimestamp (config this))
   \<and> (\<forall>x. p_humanReadableTimestamp p = Some x \<longrightarrow>
        humanReadableTimestamp (config (configure p this)) = x)
   \<and> (p_transports p = None \<longrightarrow> transports (config (configure p this)) = transports (config this))
   \<and> (\<forall>ts. p_transports p = Some ts \<longrightarrow> transports (config (configure p this)) = ts)
   \<and> (configure p this)\<lparr>config := config this\<rparr> = this
   \<and> transports (config (addTransport t this)) = transports (config this) @ [t]
   \<and> (config (addTransport t this))\<lparr>transports := transports (config this)\<rparr> = config this
   \<and> (addTransport t this)\<lparr>config := config this\<rparr> = this"
  by (simp add: configure_def merge_config_def addTransport_def)

theorem configure_merges_addTransport_appends_witness:
  "logLevel (config (configure (omit_all\<lparr>p_logLevel := Some ''error'',
        p_transports := Some [UserTransport 1]\<rparr>) two_sinks)) = ''error''
   \<and> enableColors (config (configure (omit_all\<lparr>p_logLevel := Some ''error'',
        p_transports := Some [UserTransport 1]\<rparr>) two_sinks)) = True
   \<and> transports (config (configure (omit_all\<lparr>p_logLevel := Some ''error'',
        p_transports := Some [UserTransport 1]\<rparr>) two_sinks)) = [UserTransport 1]
   \<and> transports (config (configure omit_all two_sinks)) = [ConsoleTransport, UserTransport 0]
   \<and> transports (config (addTransport (UserTransport 7) two_sinks)) =
        [ConsoleTransport, UserTransport 0, UserTransport 7]"
proof -
  have c: "enableColors (config two_sinks)"
    "transports (config two_sinks) = [ConsoleTransport, UserTransport 0]"
    by (simp_all add: sample_defs)
  show ?thesis
    using configure_merges_addTransport_appends
        [of "omit_all\<lparr>p_logLevel := Some ''error'', p_transports := Some [UserTransport 1]\<rparr>"
          two_sinks "UserTransport 7"]
      configure_merges_addTransport_appends [of omit_all two_sinks "UserTransport 7"]
    by (simp add: c omit_all_def)
qed

text \<open>
  C6 (the code departs from the claim). The claim: the caller info is taken from the
  frame three levels up from the point of capture, past \<open>getCallerInfo\<close> itself,
  \<open>enqueueLog\<close> and the public method, that is from the frame of the caller. The code
  takes the line at index 3 of the stack string. Its two patterns are those of the frame
  lines V8 prints, and on V8 the first line of the string is the header, so that index 3
  is the frame two levels up: for \<open>Logger.info\<close> called from \<open>main\<close> the value names
  \<open>Log.info\<close>, where the frame three levels up would give \<open>main\<close>. (The other parts of
  the claim hold: lemma \<open>getCallerInfo_cases\<close>.)
\<close>

theorem caller_info_names_the_public_method:
  "split_lines v8_stack = ''Error'' # v8_frames
   \<and> getCallerInfo (config (getInstance None None :: nat Log)) (StackString v8_stack :: nat stack_capture) =
       (caller_of_line (v8_frames ! 2), [])
   \<and> caller_of_line (v8_frames ! 2) = ''Log.info (/app/src/log.ts:167)''
   \<and> caller_of_line (v8_frames ! 3) = ''main (/app/src/main.ts:5)''
   \<and> map (callerInfo \<circ> meta) (logQueue (info v8_host ''ready'' [] (getInstance None None))) =
       [''Log.info (/app/src/log.ts:167)'']"
proof -
  have l: "length v8_frames = 4" by (simp add: v8_frames_def)
  have f: "caller_of_line (v8_frames ! 2) = ''Log.info (/app/src/log.ts:167)''"
    "caller_of_line (v8_frames ! 3) = ''main (/app/src/main.ts:5)''"
    by code_simp+
  have g: "getCallerInfo (config (getInstance None None :: nat Log)) (StackString v8_stack :: nat stack_capture) =
       (caller_of_line (v8_frames ! 2), [])"
    by (simp add: getCallerInfo_def getInstance_def new_Log_def split_v8_stack l)
  have q: "map (callerInfo \<circ> meta) (logQueue (info v8_host ''ready'' [] (getInstance None None))) =
       [fst (getCallerInfo (config (getInstance None None :: nat Log)) (StackString v8_stack :: nat stack_capture))]"
    by (simp add: info_def enqueueLog_def build_meta_def v8_host_def plain_host_def shouldLog_def
          logLevels_def getInstance_def new_Log_def env_logLevel_def)
  show ?thesis using f g q by (simp add: split_v8_stack)
qed

text \<open>
  C7. A call of \<open>debug\<close>, \<open>info\<close>, \<open>warn\<close> or \<open>error\<close> returns the receiver: when the
  call is permitted, with one entry appended to the queue and one more timer scheduled
  (and what \<open>getCallerInfo\<close> wrote to the error console), and unchanged otherwise. In
  both cases no transport has been invoked and nothing has been written by the console
  transport when the call returns. \<open>configure\<close> and \<open>addTransport\<close> invoke no transport
  either: invocations are made by the drain only.
\<close>

theorem log_methods_only_enqueue:
  "log_method lv h msg ps this =
     (if shouldLog (config this) (NODE_ENV h) lv
      then this\<lparr>logQueue := logQueue this @
                   [\<lparr>level = lv, message = msg, meta = build_meta (config this) h ps\<rparr>],
               console_error := console_error this @ snd (getCallerInfo (config this) (stack h)),
               timers := Suc (timers this)\<rparr>
      else this)
   \<and> invocations (log_method lv h msg ps this) = invocations this
   \<and> console_log (log_method lv h msg ps this) = console_log this
   \<and> config (log_method lv h msg ps this) = config this
   \<and> isProcessing (log_method lv h msg ps this) = isProcessing this
   \<and> log_method Debug = debug \<and> log_method Info = info
   \<and> log_method Warn = warn \<and> log_method Error = error
   \<and> invocations (configure p this) = invocations this
   \<and> invocations (addTransport t this) = invocations this"
  by (simp add: log_method_frame configure_def addTransport_def)
    (simp add: log_method_unfold enqueueLog_def)

text \<open>
  C8. After a permitted call with message \<open>msg\<close> and extra values \<open>vs\<close>, the drain invokes
  every registered transport, in registration order and after the entries queued before,
  with the level of the call, with \<open>msg\<close> and with a \<open>meta\<close> whose \<open>optionalParams\<close> are
  \<open>vs\<close>. Stated for an idle logger whose registered transports are sinks.
\<close>

theorem extra_values_round_trip:
  assumes idle: "\<not> isProcessing this"
    and ok: "shouldLog (config this) (NODE_ENV h) lv"
    and sinks: "\<forall>t\<in>set (transports (config this)). sink beh t"
    and fuel: "Suc (length (logQueue this)) < fuel"
  shows "\<exists>this'. processQueue beh fuel (log_method lv h msg vs this) = Some (Returned this')
           \<and> invocations this' = invocations this @
                concat (map (dispatch (transports (config this))) (logQueue this)) @
                map (\<lambda>t. (t, lv, msg, build_meta (config this) h vs)) (transports (config this))
           \<and> optionalParams (build_meta (config this) h vs) = vs"
  using drain_after_permitted_call [of this h lv omit_all beh fuel msg vs] idle ok sinks fuel
  by (simp add: merge_omit_all configure_omit_all build_meta_def)

theorem extra_values_round_trip_witness:
  "\<exists>this'. processQueue quiet 2
       (info plain_host ''m'' [JStr ''a'', JNum 1, JObj [(''x'', JNum 1)]] js_logger) = Some (Returned this')
     \<and> map (\<lambda>(t, lv, msg, m). (t, msg, optionalParams m)) (invocations this') =
         [(ConsoleTransport, ''m'', [JStr ''a'', JNum 1, JObj [(''x'', JNum 1)]]),
          (UserTransport 0, ''m'', [JStr ''a'', JNum 1, JObj [(''x'', JNum 1)]])]"
proof -
  have idle: "\<not> isProcessing js_logger"
    and q: "logQueue js_logger = []" "invocations js_logger = []"
      "transports (config js_logger) = [ConsoleTransport, UserTransport 0]"
    by (simp_all add: js_logger_def sample_defs)
  have ok: "shouldLog (config js_logger) (NODE_ENV (plain_host :: jsval host)) Info"
    by (simp add: js_logger_def sample_defs shouldLog_def logLevels_def)
  have sinks: "\<forall>t\<in>set (transports (config js_logger)). sink quiet t"
    by (simp add: sink_quiet)
  have fuel: "Suc (length (logQueue js_logger)) < 2" by (simp add: q)
  from extra_values_round_trip [OF idle ok sinks fuel, of "''m''" "[JStr ''a'', JNum 1, JObj [(''x'', JNum 1)]]"]
  obtain this' where
    r: "processQueue quiet 2 (log_method Info plain_host ''m'' [JStr ''a'', JNum 1, JObj [(''x'', JNum 1)]] js_logger)
          = Some (Returned this')"
    and inv: "invocations this' = invocations js_logger @
                concat (map (dispatch (transports (config js_logger))) (logQueue js_logger)) @
                map (\<lambda>t. (t, Info, ''m'', build_meta (config js_logger) plain_host [JStr ''a'', JNum 1, JObj [(''x'', JNum 1)]]))
                  (transports (config js_logger))"
    and par: "optionalParams (build_meta (config js_logger) plain_host [JStr ''a'', JNum 1, JObj [(''x'', JNum 1)]])
                = [JStr ''a'', JNum 1, JObj [(''x'', JNum 1)]]"
    by blast
  have m: "map (\<lambda>(t, lv, msg, m). (t, msg, optionalParams m)) (invocations this') =
         [(ConsoleTransport, ''m'', [JStr ''a'', JNum 1, JObj [(''x'', JNum 1)]]),
          (UserTransport 0, ''m'', [JStr ''a'', JNum 1, JObj [(''x'', JNum 1)]])]"
    unfolding inv by (simp add: q par)
  from r have r': "processQueue quiet 2
       (info plain_host ''m'' [JStr ''a'', JNum 1, JObj [(''x'', JNum 1)]] js_logger) = Some (Returned this')"
    by simp
  show ?thesis by (intro exI conjI) (rule r', rule m)
qed

text \<open>
  C9. The \<open>meta\<close> of an entry is built by the log call, from the configuration and the
  host reading of that moment. A \<open>configure\<close> between the call and the drain leaves the
  queue, and with it the stored \<open>meta\<close>, as it is; the drain passes that \<open>meta\<close> to the
  transports registered after the \<open>configure\<close>. Stated for an idle logger; the
  transports registered after the \<open>configure\<close> are sinks.
\<close>

theorem meta_fixed_at_enqueue:
  assumes idle: "\<not> isProcessing this"
    and ok: "shouldLog (config this) (NODE_ENV h) lv"
    and sinks: "\<forall>t\<in>set (transports (merge_config (config this) p)). sink beh t"
    and fuel: "Suc (length (logQueue this)) < fuel"
  shows "logQueue (log_method lv h msg ps this) = logQueue this @
            [\<lparr>level = lv, message = msg,
              meta = \<lparr>timestamp = getTimestamp (config this) h,
                      callerInfo = fst (getCallerInfo (config this) (stack h)),
                      optionalParams = ps\<rparr>\<rparr>]
       \<and> logQueue (configure p (log_method lv h msg ps this)) = logQueue (log_method lv h msg ps this)
       \<and> (\<exists>this'. processQueue beh fuel (configure p (log_method lv h msg ps this)) = Some (Returned this')
            \<and> invocations this' = invocations this @
                concat (map (dispatch (transports (merge_config (config this) p))) (logQueue this)) @
                map (\<lambda>t. (t, lv, msg, \<lparr>timestamp = getTimestamp (config this) h,
                                       callerInfo = fst (getCallerInfo (config this) (stack h)),
                                       optionalParams = ps\<rparr>))
                  (transports (merge_config (config this) p)))"
proof -
  have a: "logQueue (log_method lv h msg ps this) = logQueue this @
            [\<lparr>level = lv, message = msg,
              meta = \<lparr>timestamp = getTimestamp (config this) h,
                      callerInfo = fst (getCallerInfo (config this) (stack h)),
                      optionalParams = ps\<rparr>\<rparr>]"
    using ok by (simp add: log_method_unfold enqueueLog_def build_meta_def)
  have b: "logQueue (configure p (log_method lv h msg ps this)) = logQueue (log_method lv h msg ps this)"
    by (simp add: configure_def)
  from drain_after_permitted_call [OF idle ok sinks fuel, of msg ps] a b show ?thesis
    by (simp add: build_meta_def)
qed

theorem meta_fixed_at_enqueue_witness:
  "\<exists>this'. processQueue quiet 2
       (configure (omit_all\<lparr>p_enableTimestamps := Some False, p_enableCallerInfo := Some False\<rparr>)
          (info plain_host ''m'' [] (two_sinks :: nat Log))) = Some (Returned this')
     \<and> map (\<lambda>(t, lv, msg, m). (timestamp m, callerInfo m)) (invocations this') =
         [(''11/2/2026, 9:00:00 AM'', ''unknown''), (''11/2/2026, 9:00:00 AM'', ''unknown'')]
     \<and> getTimestamp (config this') (plain_host :: nat host) = ''timestamp disabled''"
proof -
  let ?p = "omit_all\<lparr>p_enableTimestamps := Some False, p_enableCallerInfo := Some False\<rparr>"
  have idle: "\<not> isProcessing (two_sinks :: nat Log)"
    and q: "logQueue (two_sinks :: nat Log) = []" "invocations (two_sinks :: nat Log) = []"
      "transports (merge_config (config (two_sinks :: nat Log)) ?p) = [ConsoleTransport, UserTransport 0]"
    by (simp_all add: sample_defs)
  have ok: "shouldLog (config (two_sinks :: nat Log)) (NODE_ENV (plain_host :: nat host)) Info"
    by (simp add: sample_defs shouldLog_def logLevels_def)
  have sinks: "\<forall>t\<in>set (transports (merge_config (config (two_sinks :: nat Log)) ?p)). sink quiet t"
    by (simp add: sink_quiet)
  have fuel: "Suc (length (logQueue (two_sinks :: nat Log))) < 2" by (simp add: q)
  from meta_fixed_at_enqueue [OF idle ok sinks fuel, of "''m''" "[]"]
  obtain this' where
    r: "processQueue quiet 2 (configure ?p (log_method Info plain_host ''m'' [] two_sinks)) = Some (Returned this')"
    and inv: "invocations this' = invocations two_sinks @
                concat (map (dispatch (transports (merge_config (config two_sinks) ?p))) (logQueue two_sinks)) @
                map (\<lambda>t. (t, Info, ''m'', \<lparr>timestamp = getTimestamp (config two_sinks) (plain_host :: nat host),
                                       callerInfo = fst (getCallerInfo (config two_sinks) (stack (plain_host :: nat host))),
                                       optionalParams = []\<rparr>))
                  (transports (merge_config (config two_sinks) ?p))"
    by blast
  have m: "map (\<lambda>(t, lv, msg, m). (timestamp m, callerInfo m)) (invocations this') =
         [(''11/2/2026, 9:00:00 AM'', ''unknown''), (''11/2/2026, 9:00:00 AM'', ''unknown'')]"
    unfolding inv by (simp add: q) (simp add: sample_defs getTimestamp_def getCallerInfo_def)
  from r have r': "processQueue quiet 2 (configure ?p (info plain_host ''m'' [] (two_sinks :: nat Log))) = Some (Returned this')"
    by simp
  have c: "config this' = merge_config (config (two_sinks :: nat Log)) ?p"
  proof -
    let ?s = "configure ?p (info plain_host ''m'' [] (two_sinks :: nat Log))"
    have "processQueue quiet 2 ?s =
       Some (Returned (?s\<lparr>logQueue := [],
          invocations := invocations ?s @ concat (map (dispatch (transports (config ?s))) (logQueue ?s)),
          console_log := console_log ?s @ concat (map (console_writes (config ?s)) (logQueue ?s))\<rparr>))"
      by (intro processQueue_sinks)
        (simp_all add: sink_quiet sample_defs info_def enqueueLog_def shouldLog_def logLevels_def)
    with r' show ?thesis by (simp add: configure_def info_def enqueueLog_def)
  qed
  have t: "getTimestamp (config this') (plain_host :: nat host) = ''timestamp disabled''"
    by (simp add: c getTimestamp_def merge_config_def omit_all_def)
  show ?thesis by (intro exI conjI) (rule r', rule m, rule t)
qed

text \<open>
  C10. When no transport enqueues during the drain that starts in \<open>this\<close>, every
  iteration of the loop of \<open>processQueue\<close> removes exactly the entry at the front: after
  the traversal of the transports the queue is the rest, and the loop goes on from that
  state or ends with the exception of a transport. So after \<open>k\<close> iterations the queue is
  the original one without its first \<open>k\<close> entries, and the loop ends after at most as
  many iterations as the queue has entries, with an empty queue unless a transport
  raised: fuel above the length of the queue is enough, for the loop and for
  \<open>processQueue\<close>.
\<close>

theorem drain_terminates_without_enqueue:
  assumes quiet: "no_enqueue_during_drain beh this"
  shows "(\<forall>k s e q. drain_steps beh k this = Returned s \<and> logQueue s = e # q \<longrightarrow>
            (case forEach beh (transports (config s)) e (s\<lparr>logQueue := q\<rparr>) of
               Returned s' \<Rightarrow>
                 logQueue s' = q \<and> (\<forall>n. drain_loop beh (Suc n) s = drain_loop beh n s')
             | Raised x s' \<Rightarrow>
                 logQueue s' = q \<and> (\<forall>n. drain_loop beh (Suc n) s = Some (Raised x s'))))
       \<and> (\<forall>k s. k \<le> length (logQueue this) \<and> drain_steps beh k this = Returned s \<longrightarrow>
             logQueue s = drop k (logQueue this))
       \<and> (\<forall>n. length (logQueue this) < n \<longrightarrow>
             drain_loop beh n this = Some (drain_steps beh (length (logQueue this)) this))
       \<and> (\<forall>s. drain_steps beh (length (logQueue this)) this = Returned s \<longrightarrow> logQueue s = [])
       \<and> (\<forall>this0 n. \<not> isProcessing this0 \<and> this = this0\<lparr>isProcessing := True\<rparr>
               \<and> length (logQueue this) < n \<longrightarrow>
             processQueue beh n this0 =
               Some (case drain_steps beh (length (logQueue this)) this of
                       Returned s \<Rightarrow> Returned (s\<lparr>isProcessing := False\<rparr>)
                     | Raised x s \<Rightarrow> Raised x s))"
proof -
  have a: "case forEach beh (transports (config s)) e (s\<lparr>logQueue := q\<rparr>) of
               Returned s' \<Rightarrow>
                 logQueue s' = q \<and> (\<forall>n. drain_loop beh (Suc n) s = drain_loop beh n s')
             | Raised x s' \<Rightarrow>
                 logQueue s' = q \<and> (\<forall>n. drain_loop beh (Suc n) s = Some (Raised x s'))"
    if k: "drain_steps beh k this = Returned s" and q: "logQueue s = e # q" for k s e q
  proof -
    have "no_enqueue_during_drain beh s"
      using quiet k by (rule no_enqueue_later_iterations)
    from no_enqueue_first_iteration(1) [OF this q] q show ?thesis
      by (cases "forEach beh (transports (config s)) e (s\<lparr>logQueue := q\<rparr>)")
        (simp_all add: state_of_simps)
  qed
  have b: "logQueue s = drop k (logQueue this)"
    if "k \<le> length (logQueue this)" "drain_steps beh k this = Returned s" for k s
    using quiet that by (rule no_enqueue_queue_after)
  have c: "drain_loop beh n this = Some (drain_steps beh (length (logQueue this)) this)"
    if "length (logQueue this) < n" for n
    using quiet that by (rule no_enqueue_drain_ends)
  have d: "logQueue s = []"
    if "drain_steps beh (length (logQueue this)) this = Returned s" for s
    using b [OF _ that] by simp
  have e: "processQueue beh n this0 =
               Some (case drain_steps beh (length (logQueue this)) this of
                       Returned s \<Rightarrow> Returned (s\<lparr>isProcessing := False\<rparr>)
                     | Raised x s \<Rightarrow> Raised x s)"
    if "\<not> isProcessing this0" "this = this0\<lparr>isProcessing := True\<rparr>" "length (logQueue this) < n"
    for this0 n
    using that c [OF that(3)]
    by (cases "drain_steps beh (length (logQueue this)) this") (simp_all add: processQueue_def)
  from a b c d e show ?thesis by blast
qed

theorem drain_terminates_without_enqueue_witness:
  "map_option (\<lambda>r. observe (state_of r)) (processQueue logs_debug 3 two_errors) =
     Some ([], False, 2, [''a'', ''b''])
   \<and> map message (logQueue two_errors) = [''a'', ''b'']
   \<and> map_option (\<lambda>r. observe (state_of r)) (drain_loop logs_debug 2 two_errors) = None"
proof -
  let ?start = "two_errors\<lparr>isProcessing := True\<rparr>"
  have lv: "logLevel (config ?start) = ''error''"
    by (simp add: two_errors_def error_def enqueueLog_def error_logger_def sample_defs)
  have idle: "\<not> isProcessing two_errors"
    by (simp add: two_errors_def error_def enqueueLog_def error_logger_def sample_defs)
  have len: "length (logQueue ?start) = 2"
    by (simp add: two_errors_def error_def enqueueLog_def error_logger_def sample_defs
          shouldLog_def logLevels_def)
  note t = drain_terminates_without_enqueue [OF logs_debug_no_enqueue [OF lv]]
  have "processQueue logs_debug 3 two_errors =
               Some (case drain_steps logs_debug (length (logQueue ?start)) ?start of
                       Returned s \<Rightarrow> Returned (s\<lparr>isProcessing := False\<rparr>)
                     | Raised x s \<Rightarrow> Raised x s)"
    using t [THEN conjunct2, THEN conjunct2, THEN conjunct2, THEN conjunct2, rule_format,
        of two_errors 3] idle len by simp
  then have p: "processQueue logs_debug 3 two_errors =
               Some (case drain_steps logs_debug 2 ?start of
                       Returned s \<Rightarrow> Returned (s\<lparr>isProcessing := False\<rparr>)
                     | Raised x s \<Rightarrow> Raised x s)"
    by (simp only: len)
  have a: "map_option (\<lambda>r. observe (state_of r)) (processQueue logs_debug 3 two_errors) =
     Some ([], False, 2, [''a'', ''b''])"
    unfolding p by code_simp
  have b: "map message (logQueue two_errors) = [''a'', ''b'']" by code_simp
  have c: "map_option (\<lambda>r. observe (state_of r)) (drain_loop logs_debug 2 two_errors) = None"
    by code_simp
  from a b c show ?thesis by simp
qed
end
